theory Spec2Isabelle
  imports Complex_Main "HOL-Library.Word"
begin

section \<open>Values, byte regions and length arrays\<close>

text \<open>
  The worker-offload subsystem of \<^verbatim>\<open>src/workers.js\<close>. A byte is a \<^typ>\<open>char\<close>; a Node
  \<^verbatim>\<open>Buffer\<close> is a list of bytes of fixed length. A JavaScript string is represented by the
  bytes of its UTF-8 encoding, so that \<^verbatim>\<open>Buffer.from(string)\<close> and
  \<^verbatim>\<open>buffer.toString('utf-8')\<close> keep the byte list and change only the tag.
\<close>

type_synonym bytes = "char list"

datatype jsval =
    Undefined
  | Null
  | String string
  | Buffer bytes
  | Object nat

text \<open>
  \<^verbatim>\<open>typeof element !== 'string' && !(element instanceof Buffer)\<close>: only strings and
  buffers carry bytes; \<^verbatim>\<open>Buffer.from(element)\<close> yields them.
\<close>

fun element_bytes :: "jsval \<Rightarrow> bytes option" where
  "element_bytes (String s) = Some s"
| "element_bytes (Buffer b) = Some b"
| "element_bytes _ = None"

text \<open>
  The length array is a plain JavaScript array in the unit test (a store past the end
  extends it, leaving holes) and an \<^verbatim>\<open>Int32Array\<close> in the pool (a store past the end
  is dropped, a stored number is converted to a signed 32-bit integer). A read outside
  either array yields \<^verbatim>\<open>undefined\<close>, here \<^term>\<open>None\<close>.
\<close>

datatype sizes_array =
    PlainArray "int option list"
  | Int32Array "int list"

definition to_int32 :: "int \<Rightarrow> int" where
  "to_int32 v = sint (word_of_int v :: 32 word)"

fun sizes_set :: "sizes_array \<Rightarrow> nat \<Rightarrow> int \<Rightarrow> sizes_array" where
  "sizes_set (PlainArray xs) i v =
     PlainArray (if i < length xs then xs[i := Some v]
                 else xs @ replicate (i - length xs) None @ [Some v])"
| "sizes_set (Int32Array xs) i v =
     Int32Array (if i < length xs then xs[i := to_int32 v] else xs)"

fun sizes_get :: "sizes_array \<Rightarrow> nat \<Rightarrow> int option" where
  "sizes_get (PlainArray xs) i = (if i < length xs then xs ! i else None)"
| "sizes_get (Int32Array xs) i = (if i < length xs then Some (xs ! i) else None)"

text \<open>
  \<^verbatim>\<open>source.copy(target, targetStart)\<close> copies as many bytes as fit behind
  \<^verbatim>\<open>targetStart\<close> and returns their number.
\<close>

definition copy :: "bytes \<Rightarrow> bytes \<Rightarrow> nat \<Rightarrow> bytes \<times> nat" where
  "copy source target targetStart =
     (let n = min (length source) (length target - targetStart)
      in (take targetStart target @ take n source @ drop (targetStart + n) target, n))"

text \<open>
  A JavaScript number that is an integer or \<^verbatim>\<open>NaN\<close> (\<^term>\<open>None\<close>). Adding
  \<^verbatim>\<open>undefined\<close> or \<^verbatim>\<open>NaN\<close> gives \<^verbatim>\<open>NaN\<close>, and \<^verbatim>\<open>NaN !== NaN\<close> holds.
\<close>

type_synonym number = "int option"

fun js_add :: "number \<Rightarrow> number \<Rightarrow> number" where
  "js_add (Some a) (Some b) = Some (a + b)"
| "js_add _ _ = None"

fun js_strict_neq :: "number \<Rightarrow> number \<Rightarrow> bool" where
  "js_strict_neq (Some a) (Some b) = (a \<noteq> b)"
| "js_strict_neq _ _ = True"

text \<open>
  \<^verbatim>\<open>buffer.slice(start, end)\<close> of Node: each offset is clamped into the buffer, a negative
  one counts from the end, \<^verbatim>\<open>NaN\<close> is 0.
\<close>

fun adjustOffset :: "number \<Rightarrow> nat \<Rightarrow> nat" where
  "adjustOffset None len = 0"
| "adjustOffset (Some offset) len =
     (if offset < 0 then (if 0 < offset + int len then nat (offset + int len) else 0)
      else if offset < int len then nat offset
      else len)"

definition slice :: "bytes \<Rightarrow> number \<Rightarrow> number \<Rightarrow> bytes" where
  "slice buffer start end =
     (let relativeStart = adjustOffset start (length buffer);
          relativeEnd = adjustOffset end (length buffer);
          newLength = (if relativeStart < relativeEnd then relativeEnd - relativeStart else 0)
      in take newLength (drop relativeStart buffer))"

section \<open>Framing and unframing\<close>

text \<open>
  \<^verbatim>\<open>writeBuffer(buffer, sizesArray, elements)\<close>: the loop over the elements, with the
  running index \<open>i\<close> and \<open>offset\<close>. The buffer and the length array are mutated in place;
  the model returns both.
\<close>

fun writeBuffer_loop ::
  "bytes \<Rightarrow> sizes_array \<Rightarrow> jsval list \<Rightarrow> nat \<Rightarrow> nat \<Rightarrow> bytes \<times> sizes_array" where
  "writeBuffer_loop buffer sizesArray [] i offset = (buffer, sizesArray)"
| "writeBuffer_loop buffer sizesArray (element # elements) i offset =
     (case element_bytes element of
        None \<Rightarrow> writeBuffer_loop buffer (sizes_set sizesArray i 0) elements (i + 1) offset
      | Some source \<Rightarrow>
          writeBuffer_loop (fst (copy source buffer offset))
            (sizes_set sizesArray i (int (snd (copy source buffer offset))))
            elements (i + 1) (offset + snd (copy source buffer offset)))"

definition writeBuffer :: "bytes \<Rightarrow> sizes_array \<Rightarrow> jsval list \<Rightarrow> bytes \<times> sizes_array" where
  "writeBuffer buffer sizesArray elements = writeBuffer_loop buffer sizesArray elements 0 0"

text \<open>
  \<^verbatim>\<open>readBuffer(buffer, sizesArray, elementsCount)\<close>: the loop
  \<^verbatim>\<open>for (let i = 0; i < elementsCount; i++)\<close> with \<open>start\<close> and \<open>end\<close>. An element
  \<^term>\<open>None\<close> is \<^verbatim>\<open>undefined\<close>.
\<close>

function readBuffer_loop ::
  "bytes \<Rightarrow> sizes_array \<Rightarrow> nat \<Rightarrow> nat \<Rightarrow> number \<Rightarrow> number \<Rightarrow> bytes option list
     \<Rightarrow> bytes option list" where
  "readBuffer_loop buffer sizesArray elementsCount i start end elements =
     (if i < elementsCount then
        readBuffer_loop buffer sizesArray elementsCount (i + 1)
          (js_add start (sizes_get sizesArray i))
          (js_add end (sizes_get sizesArray i))
          (elements @
             [if js_strict_neq start (js_add end (sizes_get sizesArray i))
              then Some (slice buffer start (js_add end (sizes_get sizesArray i)))
              else None])
      else elements)"
  by pat_completeness auto
termination
  by (relation "measure (\<lambda>(buffer, sizesArray, elementsCount, i, start, end, elements).
        elementsCount - i)") auto

declare readBuffer_loop.simps [simp del]

definition readBuffer :: "bytes \<Rightarrow> sizes_array \<Rightarrow> nat \<Rightarrow> bytes option list" where
  "readBuffer buffer sizesArray elementsCount =
     readBuffer_loop buffer sizesArray elementsCount 0 (Some 0) (Some 0) []"


section \<open>Errors across the thread boundary\<close>

text \<open>
  An error object with its class, its \<^verbatim>\<open>code\<close>, \<^verbatim>\<open>message\<close> and \<^verbatim>\<open>stack\<close> properties and
  the \<^verbatim>\<open>originalError\<close> it wraps. A property that is \<^verbatim>\<open>undefined\<close>, \<^verbatim>\<open>null\<close> or not a
  string is \<^term>\<open>None\<close>.
\<close>

datatype error_class = TokenErrorClass | ErrorClass | TypeErrorClass

datatype js_error =
  JsError (error_class: error_class) (error_code: "string option")
    (error_message: "string option") (error_stack: "string option")
    (originalError: "js_error option")

text \<open>
  Modelled from the spec: the constructor of \<^verbatim>\<open>TokenError\<close> (\<^verbatim>\<open>src/error.js\<close> is
  missing): an error kind that "carries a stable code and message, and may wrap an
  original lower-level cause". \<^verbatim>\<open>new TokenError(code, message, { originalError })\<close> keeps
  the three; the last argument here is the stack trace the new error has.
\<close>

definition TokenError ::
  "string option \<Rightarrow> string option \<Rightarrow> js_error option \<Rightarrow> string option \<Rightarrow> js_error" where
  "TokenError code message cause stack = JsError TokenErrorClass code message stack cause"

text \<open>
  \<^verbatim>\<open>deserializeWorkerError\<close>. \<^verbatim>\<open>new Error(originalMessage)\<close> turns a \<^verbatim>\<open>null\<close> message into
  the string \<^verbatim>\<open>null\<close>; the assignments to \<^verbatim>\<open>code\<close> and \<^verbatim>\<open>stack\<close> replace what the
  constructors have set.
\<close>

definition deserializeWorkerError ::
  "string option \<Rightarrow> string option \<Rightarrow> string option \<Rightarrow>
   string option \<Rightarrow> string option \<Rightarrow> string option \<Rightarrow> js_error" where
  "deserializeWorkerError code message stack originalCode originalMessage originalStack =
     TokenError code message
       (Some (JsError ErrorClass originalCode
          (Some (case originalMessage of None \<Rightarrow> ''null'' | Some m \<Rightarrow> m))
          originalStack None))
       stack"

text \<open>
  Modelled from the spec: \<^verbatim>\<open>TokenError.wrap\<close> (\<^verbatim>\<open>src/error.js\<close> is missing). Errors of
  a worker are "reconstructed on the caller side with identical code/message", and the
  repository's test expects the adapter's own message from a worker, so an error that is
  already a \<^verbatim>\<open>TokenError\<close> is kept; any other error becomes the cause of a new
  \<^verbatim>\<open>TokenError\<close> with the given code and message. \<open>stack\<close> is the trace captured where the
  new error is constructed.
\<close>

definition wrap :: "js_error \<Rightarrow> string \<Rightarrow> string \<Rightarrow> string \<Rightarrow> js_error" where
  "wrap e code message stack =
     (if error_class e = TokenErrorClass then e
      else TokenError (Some code) (Some message) (Some e) (Some stack))"

text \<open>
  What the worker module takes from outside: the two operations of \<^verbatim>\<open>./crypto\<close>
  (they return a value or throw), the constant \<^verbatim>\<open>TokenError.codes.workerError\<close>, the
  \<^verbatim>\<open>TypeError\<close> raised when a property of \<^verbatim>\<open>undefined\<close> is read and the stack trace
  captured by an error constructed in a worker.
\<close>

record adapter =
  createSignature :: "jsval \<Rightarrow> jsval \<Rightarrow> jsval \<Rightarrow> jsval \<Rightarrow> js_error + string"
  verifySignature :: "jsval \<Rightarrow> jsval \<Rightarrow> jsval \<Rightarrow> jsval \<Rightarrow> js_error + bool"
  workerError :: string
  typeError :: js_error
  workerStack :: string

section \<open>The pool\<close>

datatype listener = SignReply nat nat | VerifyReply nat nat

text \<open>
  A worker object as the caller sees it: the \<^verbatim>\<open>message\<close> listener installed on it (a
  closure over the worker index and the callback, here the callback's number), the
  notifications posted to the thread and not yet handled, the statuses the thread has
  posted back and the caller has not yet received, and whether the thread is running.
\<close>

record worker =
  listener :: "listener option"
  inbox :: nat
  outbox :: "int list"
  alive :: bool

text \<open>The module's variables; \<open>cores\<close> is \<^verbatim>\<open>cpus().length\<close>.\<close>

record pool =
  cores :: nat
  workers :: "worker list"
  availableWorkers :: "nat option list"
  requestsSharedBuffers :: "bytes option list"
  repliesSharedBuffers :: "bytes option list"
  requestsSizesArray :: "sizes_array option list"
  repliesSizesArray :: "sizes_array option list"

definition initial :: "nat \<Rightarrow> pool" where
  "initial c =
     \<lparr>cores = c, workers = [], availableWorkers = map Some [0..<c],
      requestsSharedBuffers = replicate c None, repliesSharedBuffers = replicate c None,
      requestsSizesArray = replicate c None, repliesSizesArray = replicate c None\<rparr>"

text \<open>
  A JavaScript array with holes: reading outside it or at a hole gives \<^verbatim>\<open>undefined\<close>, a
  store past the end extends it.
\<close>

definition js_index :: "'a option list \<Rightarrow> nat \<Rightarrow> 'a option" where
  "js_index xs i = (if i < length xs then xs ! i else None)"

definition js_store :: "'a option list \<Rightarrow> nat \<Rightarrow> 'a \<Rightarrow> 'a option list" where
  "js_store xs i v =
     (if i < length xs then xs[i := Some v]
      else xs @ replicate (i - length xs) None @ [Some v])"

definition new_worker :: worker where
  "new_worker = \<lparr>listener = None, inbox = 0, outbox = [], alive = True\<rparr>"

text \<open>
  \<^verbatim>\<open>startWorkers(size = 4096)\<close>; the parameter \<^verbatim>\<open>size\<close> is \<open>bytesize\<close> here.
\<close>

function startWorkers_loop :: "nat \<Rightarrow> nat \<Rightarrow> pool \<Rightarrow> pool" where
  "startWorkers_loop bytesize i st =
     (if i < cores st then
        startWorkers_loop bytesize (i + 1)
          (st\<lparr>requestsSharedBuffers :=
                 js_store (requestsSharedBuffers st) i (replicate bytesize (CHR 0x00)),
               repliesSharedBuffers :=
                 js_store (repliesSharedBuffers st) i (replicate bytesize (CHR 0x00)),
               requestsSizesArray :=
                 js_store (requestsSizesArray st) i (Int32Array (replicate 10 0)),
               repliesSizesArray :=
                 js_store (repliesSizesArray st) i (Int32Array (replicate 10 0)),
               workers := workers st @ [new_worker]\<rparr>)
      else st)"
  by pat_completeness auto
termination
  by (relation "measure (\<lambda>(bytesize, i, st). cores st - i)") auto

declare startWorkers_loop.simps [simp del]

definition startWorkers :: "nat \<Rightarrow> pool \<Rightarrow> pool" where
  "startWorkers bytesize st = (if workers st \<noteq> [] then st else startWorkers_loop bytesize 0 st)"

text \<open>
  \<^verbatim>\<open>stopWorkers(callback)\<close>: the new state, the workers whose \<^verbatim>\<open>terminate()\<close> was
  called, and what the caller gets: nothing, a promise, or a later call of the callback.
\<close>

datatype stop_result = ReturnsUndefined | ReturnsPromise | CallsBack nat

definition stopWorkers :: "nat option \<Rightarrow> pool \<Rightarrow> pool \<times> worker list \<times> stop_result" where
  "stopWorkers callback st =
     (if workers st = [] then (st, [], ReturnsUndefined)
      else (st\<lparr>workers := []\<rparr>, workers st,
            case callback of Some cb \<Rightarrow> CallsBack cb | None \<Rightarrow> ReturnsPromise))"

section \<open>Acquiring a worker\<close>

text \<open>The value \<^verbatim>\<open>getAvailableWorker\<close> hands to its callback.\<close>

datatype worker_ref = Null_ref | Undefined_ref | Index nat

fun falsy :: "worker_ref \<Rightarrow> bool" where
  "falsy (Index i) = (i = 0)"
| "falsy _ = True"

fun shift :: "nat option list \<Rightarrow> worker_ref \<times> nat option list" where
  "shift [] = (Undefined_ref, [])"
| "shift (None # xs) = (Undefined_ref, xs)"
| "shift (Some i # xs) = (Index i, xs)"

text \<open>
  The product \<^verbatim>\<open>Math.random() * 10\<close> is a multiplication of IEEE 754 doubles: the exact
  product is rounded to the nearest double, ties to the even significand. A double is
  represented by the rational number it denotes. \<open>binade x\<close> is the exponent \<open>e\<close> with
  \<open>2^e \<le> x < 2^(e+1)\<close>, searched upwards from 0 or downwards from -1 and kept within the
  exponents of doubles (-1022 to 1023); the doubles of that binade are the multiples of
  \<open>2^(e-52)\<close>.
\<close>

fun binade_up :: "nat \<Rightarrow> int \<Rightarrow> rat \<Rightarrow> int" where
  "binade_up 0 e x = e"
| "binade_up (Suc n) e x = (if x < 2 powi (e + 1) then e else binade_up n (e + 1) x)"

fun binade_down :: "nat \<Rightarrow> int \<Rightarrow> rat \<Rightarrow> int" where
  "binade_down 0 e x = e"
| "binade_down (Suc n) e x = (if 2 powi e \<le> x then e else binade_down n (e - 1) x)"

definition binade :: "rat \<Rightarrow> int" where
  "binade x = (if 1 \<le> x then binade_up 1023 0 x else binade_down 1021 (- 1) x)"

definition round_even :: "rat \<Rightarrow> int" where
  "round_even y =
     (if y - of_int \<lfloor>y\<rfloor> < 1 / 2 then \<lfloor>y\<rfloor>
      else if 1 / 2 < y - of_int \<lfloor>y\<rfloor> then \<lfloor>y\<rfloor> + 1
      else if even \<lfloor>y\<rfloor> then \<lfloor>y\<rfloor>
      else \<lfloor>y\<rfloor> + 1)"

definition double_round :: "rat \<Rightarrow> rat" where
  "double_round x =
     (if x = 0 then 0
      else 2 powi (binade x - 52) * of_int (round_even (x / 2 powi (binade x - 52))))"

text \<open>
  One call of \<^verbatim>\<open>getAvailableWorker(callback, attempts)\<close>: it either invokes the callback
  or sets a timer that calls it again with \<open>attempts - 1\<close>. \<open>random\<close> is the double that
  \<^verbatim>\<open>Math.random()\<close> returns, at least 0 and below 1, so at most \<open>1 - 2^-53\<close>; the delay is
  \<^verbatim>\<open>Math.floor(Math.random() * 10)\<close>.
\<close>

datatype acquire_action = Invoke worker_ref | SetTimeout nat int

definition getAvailableWorker :: "pool \<Rightarrow> int \<Rightarrow> rat \<Rightarrow> acquire_action \<times> pool" where
  "getAvailableWorker st attempts random =
     (if workers st = [] then (Invoke Null_ref, st)
      else
        (let worker = fst (shift (availableWorkers st));
             st' = st\<lparr>availableWorkers := snd (shift (availableWorkers st))\<rparr>
         in if falsy worker \<and> 0 < attempts \<and> workers st' \<noteq> []
            then (SetTimeout (nat \<lfloor>double_round (random * 10)\<rfloor>) (attempts - 1), st')
            else (Invoke worker, st')))"

text \<open>
  What the caller's side emits: a timer set, a callback of \<^verbatim>\<open>getAvailableWorker\<close> invoked,
  a line logged, a caller's callback called with an error or a result, an exception
  that nothing catches.
\<close>

datatype result = Signature string | Verified bool

datatype effect =
    TimerSet nat
  | Invoked worker_ref
  | ConsoleLog worker_ref
  | Callback nat "js_error + result"
  | UncaughtTypeError

text \<open>
  The timers of one acquisition run to the end. Each entry of the schedule holds the
  random number drawn by a call and what the rest of the program does to the pool before
  the timer it sets fires.
\<close>

type_synonym schedule = "(rat \<times> (pool \<Rightarrow> pool)) list"

fun next_random :: "schedule \<Rightarrow> rat" where
  "next_random [] = 0"
| "next_random (g # gs) = fst g"

fun meanwhile :: "schedule \<Rightarrow> pool \<Rightarrow> pool" where
  "meanwhile [] st = st"
| "meanwhile (g # gs) st = snd g st"

function getAvailableWorker_run ::
  "(worker_ref \<Rightarrow> pool \<Rightarrow> pool \<times> effect list) \<Rightarrow> schedule \<Rightarrow> pool \<Rightarrow> int
     \<Rightarrow> pool \<times> effect list" where
  "getAvailableWorker_run callback sched st attempts =
     (case getAvailableWorker st attempts (next_random sched) of
        (Invoke worker, st') \<Rightarrow> callback worker st'
      | (SetTimeout delay attempts', st') \<Rightarrow>
          (case getAvailableWorker_run callback (tl sched) (meanwhile sched st') attempts' of
             (st'', out) \<Rightarrow> (st'', TimerSet delay # out)))"
  by pat_completeness auto
termination
  by (relation "measure (\<lambda>(callback, sched, st, attempts). nat attempts)")
     (auto simp: getAvailableWorker_def Let_def split: if_splits)

declare getAvailableWorker_run.simps [simp del]

section \<open>The worker thread\<close>

definition string_field :: "string option \<Rightarrow> jsval" where
  "string_field p = (case p of None \<Rightarrow> Undefined | Some s \<Rightarrow> String s)"

definition or_empty :: "string option \<Rightarrow> string" where
  "or_empty p = (case p of None \<Rightarrow> [] | Some s \<Rightarrow> s)"

definition as_buffer :: "bytes option \<Rightarrow> jsval" where
  "as_buffer d = (case d of None \<Rightarrow> Undefined | Some b \<Rightarrow> Buffer b)"

text \<open>
  The \<^verbatim>\<open>try\<close> block of the listener that \<^verbatim>\<open>handleWorker\<close> installs, up to
  \<^verbatim>\<open>rv.toString()\<close>: \<^verbatim>\<open>.toString\<close> of an unframed field that is \<^verbatim>\<open>undefined\<close> throws.
\<close>

definition worker_operation :: "'a adapter_scheme \<Rightarrow> bytes option list \<Rightarrow> js_error + string" where
  "worker_operation env unframed =
     (case unframed of
        operation # algorithm # secret # headerOrInput # payloadOrSignature # _ \<Rightarrow>
          (case operation of
             None \<Rightarrow> Inl (typeError env)
           | Some op \<Rightarrow>
               if op = ''sign'' then
                 (case algorithm of
                    None \<Rightarrow> Inl (typeError env)
                  | Some alg \<Rightarrow>
                      createSignature env (String alg) (as_buffer secret)
                        (as_buffer headerOrInput) (as_buffer payloadOrSignature))
               else
                 (case algorithm of
                    None \<Rightarrow> Inl (typeError env)
                  | Some alg \<Rightarrow>
                      (case payloadOrSignature of
                         None \<Rightarrow> Inl (typeError env)
                       | Some signature \<Rightarrow>
                           (case verifySignature env (String alg) (as_buffer secret)
                                   (as_buffer headerOrInput) (String signature) of
                              Inl e \<Rightarrow> Inl e
                            | Inr rv \<Rightarrow> Inr (if rv then ''true'' else ''false'')))))
      | _ \<Rightarrow> Inl (typeError env))"

text \<open>
  What the listener frames into the reply region and the status it posts: one field and
  0 after the \<^verbatim>\<open>try\<close> block, six fields and -1 in the \<^verbatim>\<open>catch\<close> block. When the wrapped
  error has no \<^verbatim>\<open>originalError\<close>, reading its \<^verbatim>\<open>code\<close> throws inside the \<^verbatim>\<open>catch\<close> block:
  nothing is framed and nothing is posted.
\<close>

definition worker_reply :: "'a adapter_scheme \<Rightarrow> js_error + string \<Rightarrow> (jsval list \<times> int) option" where
  "worker_reply env outcome =
     (case outcome of
        Inr rv \<Rightarrow> Some ([String rv], 0)
      | Inl e \<Rightarrow>
          (let error = wrap e (workerError env) ''Cannot perform operation using worker.''
                         (workerStack env)
           in case originalError error of
                None \<Rightarrow> None
              | Some original \<Rightarrow>
                  Some ([string_field (error_code error), string_field (error_message error),
                         string_field (error_stack error), String (or_empty (error_code original)),
                         string_field (error_message original), string_field (error_stack original)], - 1)))"

definition handleWorker_message ::
  "'a adapter_scheme \<Rightarrow> bytes \<Rightarrow> sizes_array \<Rightarrow> bytes \<Rightarrow> sizes_array
     \<Rightarrow> (bytes \<times> sizes_array) \<times> int option" where
  "handleWorker_message env requestBuffer requestSizes replyBuffer replySizes =
     (case worker_reply env (worker_operation env (readBuffer requestBuffer requestSizes 5)) of
        None \<Rightarrow> ((replyBuffer, replySizes), None)
      | Some (elements, status) \<Rightarrow> (writeBuffer replyBuffer replySizes elements, Some status))"

text \<open>
  The thread of worker \<open>i\<close> handles one notification on the regions it shares with the
  caller. An exception that leaves the listener ends the thread.
\<close>

definition worker_thread :: "'a adapter_scheme \<Rightarrow> nat \<Rightarrow> pool \<Rightarrow> pool" where
  "worker_thread env i st =
     (if i < length (workers st) \<and> alive (workers st ! i) \<and> 0 < inbox (workers st ! i) then
        (case (js_index (requestsSharedBuffers st) i, js_index (requestsSizesArray st) i,
               js_index (repliesSharedBuffers st) i, js_index (repliesSizesArray st) i) of
           (Some requestBuffer, Some requestSizes, Some replyBuffer, Some replySizes) \<Rightarrow>
             (case handleWorker_message env requestBuffer requestSizes replyBuffer replySizes of
                ((replyBuffer', replySizes'), posted) \<Rightarrow>
                  st\<lparr>repliesSharedBuffers := js_store (repliesSharedBuffers st) i replyBuffer',
                     repliesSizesArray := js_store (repliesSizesArray st) i replySizes',
                     workers := (workers st)[i :=
                       (case posted of
                          None \<Rightarrow> (workers st ! i)\<lparr>inbox := inbox (workers st ! i) - 1,
                                                   alive := False\<rparr>
                        | Some status \<Rightarrow>
                            (workers st ! i)\<lparr>inbox := inbox (workers st ! i) - 1,
                                              outbox := outbox (workers st ! i) @ [status]\<rparr>)]\<rparr>)
         | _ \<Rightarrow> st)
      else st)"

section \<open>The caller's side\<close>

text \<open>\<^verbatim>\<open>response === 0 ? 1 : 6\<close>, the number of fields a reply handler unframes.\<close>

definition reply_count :: "int \<Rightarrow> nat" where
  "reply_count response = (if response = 0 then 1 else 6)"

text \<open>
  \<^verbatim>\<open>deserializeWorkerError(...data.map(d => (d ? d.toString('utf-8') : null)))\<close>: a field
  that is \<^verbatim>\<open>undefined\<close> becomes \<^verbatim>\<open>null\<close>, a missing argument is \<^verbatim>\<open>undefined\<close>.
\<close>

definition deserialize :: "bytes option list \<Rightarrow> js_error" where
  "deserialize data =
     deserializeWorkerError (js_index data 0) (js_index data 1) (js_index data 2)
       (js_index data 3) (js_index data 4) (js_index data 5)"

text \<open>
  The listener installed by \<^verbatim>\<open>createSignatureWithWorker\<close>. Its closure holds
  \<^verbatim>\<open>workerIndex\<close>, the callback and \<^verbatim>\<open>replyBuffer\<close>, the reply buffer the worker had when
  the request was made; \<open>replyBuffer\<close> is what that buffer holds when the reply arrives.
  The array of lengths is read from the module's variable \<^verbatim>\<open>repliesSizesArray\<close> at that
  time; reading an entry of \<^verbatim>\<open>undefined\<close> throws. \<^verbatim>\<open>Buffer.from(data[0])\<close> throws when the
  field is \<^verbatim>\<open>undefined\<close>.
\<close>

definition sign_onMessage :: "nat \<Rightarrow> nat \<Rightarrow> bytes \<Rightarrow> int \<Rightarrow> pool \<Rightarrow> pool \<times> effect list" where
  "sign_onMessage workerIndex callback replyBuffer response st =
     (case js_index (repliesSizesArray st) workerIndex of
        Some replySizes \<Rightarrow>
          (let data = readBuffer replyBuffer replySizes (reply_count response);
               st' = st\<lparr>availableWorkers := availableWorkers st @ [Some workerIndex]\<rparr>
           in if response < 0 then (st', [Callback callback (Inl (deserialize data))])
              else (case js_index data 0 of
                      None \<Rightarrow> (st', [UncaughtTypeError])
                    | Some d \<Rightarrow> (st', [Callback callback (Inr (Signature d))])))
      | None \<Rightarrow> (st, [UncaughtTypeError]))"

text \<open>
  The listener installed by \<^verbatim>\<open>verifySignatureWithWorker\<close>; its release is
  \<^verbatim>\<open>availableWorkers[workerIndex] = 0\<close>.
\<close>

definition verify_onMessage :: "nat \<Rightarrow> nat \<Rightarrow> bytes \<Rightarrow> int \<Rightarrow> pool \<Rightarrow> pool \<times> effect list" where
  "verify_onMessage workerIndex callback replyBuffer response st =
     (case js_index (repliesSizesArray st) workerIndex of
        Some replySizes \<Rightarrow>
          (let data = readBuffer replyBuffer replySizes (reply_count response);
               st' = st\<lparr>availableWorkers := js_store (availableWorkers st) workerIndex 0\<rparr>
           in if response < 0 then (st', [Callback callback (Inl (deserialize data))])
              else (case js_index data 0 of
                      None \<Rightarrow> (st', [UncaughtTypeError])
                    | Some d \<Rightarrow> (st', [Callback callback (Inr (Verified (d = ''true'')))])))
      | None \<Rightarrow> (st, [UncaughtTypeError]))"

text \<open>
  A status reaches the \<^verbatim>\<open>message\<close> listeners of a worker object: the listener installed
  by the last request to that worker, if any, runs on the worker's reply buffer. A
  listener is installed only after \<^verbatim>\<open>Buffer.from(repliesSharedBuffers[workerIndex])\<close> has
  succeeded, so a worker without a reply buffer has no listener.
\<close>

definition onMessage :: "listener option \<Rightarrow> bytes option \<Rightarrow> int \<Rightarrow> pool \<Rightarrow> pool \<times> effect list" where
  "onMessage installed replyBuffer response st =
     (case (installed, replyBuffer) of
        (Some (SignReply workerIndex callback), Some buffer) \<Rightarrow>
          sign_onMessage workerIndex callback buffer response st
      | (Some (VerifyReply workerIndex callback), Some buffer) \<Rightarrow>
          verify_onMessage workerIndex callback buffer response st
      | _ \<Rightarrow> (st, []))"

text \<open>
  \<^verbatim>\<open>writeBuffer\<close> on a length array that is \<^verbatim>\<open>undefined\<close>: the first element is copied if
  it carries bytes, then the store into the array throws.
\<close>

definition writeBuffer_undefined :: "bytes \<Rightarrow> jsval list \<Rightarrow> bytes" where
  "writeBuffer_undefined buffer elements =
     (case elements of
        [] \<Rightarrow> buffer
      | element # _ \<Rightarrow>
          (case element_bytes element of
             None \<Rightarrow> buffer
           | Some source \<Rightarrow> fst (copy source buffer 0)))"

text \<open>
  The part both callbacks share once they hold a worker index: frame the request into
  the worker's request region, replace the worker's \<^verbatim>\<open>message\<close> listeners by the reply
  handler, post the notification.
\<close>

definition offload :: "jsval list \<Rightarrow> listener \<Rightarrow> nat \<Rightarrow> pool \<Rightarrow> pool \<times> effect list" where
  "offload elements handler workerIndex st =
     (case (js_index (requestsSharedBuffers st) workerIndex,
            js_index (repliesSharedBuffers st) workerIndex) of
        (Some requestBuffer, Some replyBuffer) \<Rightarrow>
          (case js_index (requestsSizesArray st) workerIndex of
             None \<Rightarrow>
               (st\<lparr>requestsSharedBuffers :=
                      js_store (requestsSharedBuffers st) workerIndex
                        (writeBuffer_undefined requestBuffer elements)\<rparr>,
                [UncaughtTypeError])
           | Some requestSizes \<Rightarrow>
               (let st' = st\<lparr>requestsSharedBuffers :=
                                js_store (requestsSharedBuffers st) workerIndex
                                  (fst (writeBuffer requestBuffer requestSizes elements)),
                              requestsSizesArray :=
                                js_store (requestsSizesArray st) workerIndex
                                  (snd (writeBuffer requestBuffer requestSizes elements))\<rparr>
                in if workerIndex < length (workers st) then
                     (st'\<lparr>workers := (workers st)[workerIndex :=
                            (workers st ! workerIndex)
                              \<lparr>listener := Some handler,
                               inbox := inbox (workers st ! workerIndex) + 1\<rparr>]\<rparr>, [])
                   else (st', [UncaughtTypeError])))
      | _ \<Rightarrow> (st, [UncaughtTypeError]))"

fun index_of :: "worker_ref \<Rightarrow> nat" where
  "index_of (Index i) = i"
| "index_of _ = 0"

text \<open>
  The callbacks that \<^verbatim>\<open>createSignatureWithWorker\<close> and \<^verbatim>\<open>verifySignatureWithWorker\<close> hand
  to \<^verbatim>\<open>getAvailableWorker\<close>. The caller's callback is taken not to throw.
\<close>

definition createSignatureWithWorker_callback ::
  "'a adapter_scheme \<Rightarrow> jsval \<Rightarrow> jsval \<Rightarrow> jsval \<Rightarrow> jsval \<Rightarrow> nat \<Rightarrow> worker_ref \<Rightarrow> pool
     \<Rightarrow> pool \<times> effect list" where
  "createSignatureWithWorker_callback env algorithm secret header payload callback workerIndex st =
     (if falsy workerIndex then
        (st, [ConsoleLog workerIndex,
              Callback callback
                (case createSignature env algorithm secret header payload of
                   Inl e \<Rightarrow> Inl e
                 | Inr rv \<Rightarrow> Inr (Signature rv))])
      else
        (case offload [String ''sign'', algorithm, secret, header, payload]
                (SignReply (index_of workerIndex) callback) (index_of workerIndex) st of
           (st', out) \<Rightarrow> (st', ConsoleLog workerIndex # out)))"

definition verifySignatureWithWorker_callback ::
  "'a adapter_scheme \<Rightarrow> jsval \<Rightarrow> jsval \<Rightarrow> jsval \<Rightarrow> jsval \<Rightarrow> nat \<Rightarrow> worker_ref \<Rightarrow> pool
     \<Rightarrow> pool \<times> effect list" where
  "verifySignatureWithWorker_callback env algorithm secret input signature callback workerIndex st =
     (if falsy workerIndex then
        (st, [Callback callback
                (case verifySignature env algorithm secret input signature of
                   Inl e \<Rightarrow> Inl e
                 | Inr rv \<Rightarrow> Inr (Verified rv))])
      else
        offload [String ''verify'', algorithm, secret, input, signature]
          (VerifyReply (index_of workerIndex) callback) (index_of workerIndex) st)"

definition createSignatureWithWorker ::
  "'a adapter_scheme \<Rightarrow> schedule \<Rightarrow> jsval \<Rightarrow> jsval \<Rightarrow> jsval \<Rightarrow> jsval \<Rightarrow> nat \<Rightarrow> pool
     \<Rightarrow> pool \<times> effect list" where
  "createSignatureWithWorker env sched algorithm secret header payload callback st =
     getAvailableWorker_run
       (createSignatureWithWorker_callback env algorithm secret header payload callback)
       sched st 3"

definition verifySignatureWithWorker ::
  "'a adapter_scheme \<Rightarrow> schedule \<Rightarrow> jsval \<Rightarrow> jsval \<Rightarrow> jsval \<Rightarrow> jsval \<Rightarrow> nat \<Rightarrow> pool
     \<Rightarrow> pool \<times> effect list" where
  "verifySignatureWithWorker env sched algorithm secret input signature callback st =
     getAvailableWorker_run
       (verifySignatureWithWorker_callback env algorithm secret input signature callback)
       sched st 3"

section \<open>The event loop\<close>

text \<open>
  \<^verbatim>\<open>stopWorkers\<close> calls \<^verbatim>\<open>terminate()\<close> on every worker and forgets the worker objects;
  \<^verbatim>\<open>terminate()\<close> is asynchronous and no listener is removed. So the thread of a
  terminated worker may still handle a notification it has received, and a status it
  has posted may still reach the listener installed on it. A terminated worker keeps the
  index it had (\<open>slot\<close>) and the four regions it was created with. The module's arrays
  refer to the same regions until the next \<^verbatim>\<open>startWorkers\<close> that creates workers puts new
  regions there (\<open>replaced\<close>).
\<close>

record retired_worker =
  slot :: nat
  thread :: worker
  request_bytes :: "bytes option"
  request_sizes :: "sizes_array option"
  reply_bytes :: "bytes option"
  reply_sizes :: "sizes_array option"
  replaced :: bool

fun retire :: "pool \<Rightarrow> nat \<Rightarrow> worker list \<Rightarrow> retired_worker list" where
  "retire st i [] = []"
| "retire st i (w # ws) =
     \<lparr>slot = i, thread = w,
      request_bytes = js_index (requestsSharedBuffers st) i,
      request_sizes = js_index (requestsSizesArray st) i,
      reply_bytes = js_index (repliesSharedBuffers st) i,
      reply_sizes = js_index (repliesSizesArray st) i,
      replaced = False\<rparr> # retire st (Suc i) ws"

text \<open>
  The thread of a terminated worker handles one notification on its own regions, as
  \<open>worker_thread\<close> does for a worker of the pool; what it writes into its reply region
  is seen through the module's arrays as long as they refer to that region.
\<close>

definition retired_thread :: "'a adapter_scheme \<Rightarrow> retired_worker \<Rightarrow> retired_worker" where
  "retired_thread env r =
     (if alive (thread r) \<and> 0 < inbox (thread r) then
        (case (request_bytes r, request_sizes r, reply_bytes r, reply_sizes r) of
           (Some requestBuffer, Some requestSizes, Some replyBuffer, Some replySizes) \<Rightarrow>
             (case handleWorker_message env requestBuffer requestSizes replyBuffer replySizes of
                ((replyBuffer', replySizes'), posted) \<Rightarrow>
                  r\<lparr>reply_bytes := Some replyBuffer',
                    reply_sizes := Some replySizes',
                    thread :=
                      (case posted of
                         None \<Rightarrow> (thread r)\<lparr>inbox := inbox (thread r) - 1, alive := False\<rparr>
                       | Some status \<Rightarrow>
                           (thread r)\<lparr>inbox := inbox (thread r) - 1,
                                      outbox := outbox (thread r) @ [status]\<rparr>)\<rparr>)
         | _ \<Rightarrow> r)
      else r)"

definition shared_replies :: "retired_worker \<Rightarrow> pool \<Rightarrow> pool" where
  "shared_replies r st =
     (if replaced r then st
      else (case (reply_bytes r, reply_sizes r) of
              (Some replyBuffer, Some replySizes) \<Rightarrow>
                st\<lparr>repliesSharedBuffers := js_store (repliesSharedBuffers st) (slot r) replyBuffer,
                   repliesSizesArray := js_store (repliesSizesArray st) (slot r) replySizes\<rparr>
            | _ \<Rightarrow> st))"

text \<open>
  The caller's thread runs one callback at a time. Its state is the pool, the workers
  terminated so far, the timers set by \<^verbatim>\<open>getAvailableWorker\<close> that have not fired, and what
  has been emitted. An event is a call of the module's interface, a timer that fires, the
  thread of a worker (of the pool or terminated) that handles a notification, or a status
  of such a worker that reaches the caller.
\<close>

datatype request =
    SignRequest jsval jsval jsval jsval nat
  | VerifyRequest jsval jsval jsval jsval nat

fun request_callback ::
  "'a adapter_scheme \<Rightarrow> request \<Rightarrow> worker_ref \<Rightarrow> pool \<Rightarrow> pool \<times> effect list" where
  "request_callback env (SignRequest algorithm secret header payload callback) =
     createSignatureWithWorker_callback env algorithm secret header payload callback"
| "request_callback env (VerifyRequest algorithm secret input signature callback) =
     verifySignatureWithWorker_callback env algorithm secret input signature callback"

record event_loop =
  state :: pool
  terminated :: "retired_worker list"
  timers :: "(request \<times> int) list"
  trace :: "effect list"

definition acquire :: "'a adapter_scheme \<Rightarrow> request \<Rightarrow> int \<Rightarrow> rat \<Rightarrow> event_loop \<Rightarrow> event_loop" where
  "acquire env req attempts random m =
     (case getAvailableWorker (state m) attempts random of
        (Invoke worker, st') \<Rightarrow>
          (case request_callback env req worker st' of
             (st'', out) \<Rightarrow> m\<lparr>state := st'', trace := trace m @ out\<rparr>)
      | (SetTimeout delay attempts', st') \<Rightarrow>
          m\<lparr>state := st', timers := timers m @ [(req, attempts')],
            trace := trace m @ [TimerSet delay]\<rparr>)"

text \<open>The oldest status posted by worker \<open>i\<close> of the pool reaches the caller.\<close>

definition deliver :: "nat \<Rightarrow> pool \<Rightarrow> pool \<times> effect list" where
  "deliver i st =
     (if i < length (workers st) then
        (case outbox (workers st ! i) of
           [] \<Rightarrow> (st, [])
         | response # rest \<Rightarrow>
             onMessage (listener (workers st ! i)) (js_index (repliesSharedBuffers st) i) response
               (st\<lparr>workers := (workers st)[i := (workers st ! i)\<lparr>outbox := rest\<rparr>]\<rparr>))
      else (st, []))"

text \<open>The oldest status posted by the \<open>k\<close>-th terminated worker reaches the caller.\<close>

definition deliver_terminated :: "nat \<Rightarrow> event_loop \<Rightarrow> event_loop" where
  "deliver_terminated k m =
     (if k < length (terminated m) then
        (case outbox (thread (terminated m ! k)) of
           [] \<Rightarrow> m
         | response # rest \<Rightarrow>
             (case onMessage (listener (thread (terminated m ! k)))
                     (reply_bytes (terminated m ! k)) response (state m) of
                (st', out) \<Rightarrow>
                  m\<lparr>state := st',
                    terminated := (terminated m)[k :=
                      (terminated m ! k)\<lparr>thread := (thread (terminated m ! k))\<lparr>outbox := rest\<rparr>\<rparr>],
                    trace := trace m @ out\<rparr>))
      else m)"

datatype event =
    Start nat
  | Stop "nat option"
  | Submit request rat
  | TimerFires nat rat
  | WorkerRuns nat
  | ReplyArrives nat
  | TerminatedRuns nat
  | TerminatedReply nat

fun step :: "'a adapter_scheme \<Rightarrow> event_loop \<Rightarrow> event \<Rightarrow> event_loop" where
  "step env m (Start bytesize) =
     m\<lparr>state := startWorkers bytesize (state m),
       terminated :=
         (if workers (state m) = []
          then map (\<lambda>r. r\<lparr>replaced := replaced r \<or> slot r < cores (state m)\<rparr>) (terminated m)
          else terminated m)\<rparr>"
| "step env m (Stop callback) =
     m\<lparr>state := fst (stopWorkers callback (state m)),
       terminated := terminated m @ retire (state m) 0 (fst (snd (stopWorkers callback (state m))))\<rparr>"
| "step env m (Submit req random) = acquire env req 3 random m"
| "step env m (TimerFires k random) =
     (if k < length (timers m) then
        acquire env (fst (timers m ! k)) (snd (timers m ! k)) random
          (m\<lparr>timers := take k (timers m) @ drop (Suc k) (timers m)\<rparr>)
      else m)"
| "step env m (WorkerRuns i) = m\<lparr>state := worker_thread env i (state m)\<rparr>"
| "step env m (ReplyArrives i) =
     (case deliver i (state m) of (st', out) \<Rightarrow> m\<lparr>state := st', trace := trace m @ out\<rparr>)"
| "step env m (TerminatedRuns k) =
     (if k < length (terminated m) then
        m\<lparr>state := shared_replies (retired_thread env (terminated m ! k)) (state m),
          terminated := (terminated m)[k := retired_thread env (terminated m ! k)]\<rparr>
      else m)"
| "step env m (TerminatedReply k) = deliver_terminated k m"

definition run :: "'a adapter_scheme \<Rightarrow> nat \<Rightarrow> event list \<Rightarrow> event_loop" where
  "run env c events =
     foldl (step env) \<lparr>state = initial c, terminated = [], timers = [], trace = []\<rparr> events"

text \<open>The operations in flight on a worker: notified, and the reply not yet received.\<close>

definition in_flight :: "worker \<Rightarrow> nat" where
  "in_flight w = inbox w + length (outbox w)"

section \<open>Vocabulary of the properties\<close>

text \<open>
  The bytes an element contributes to a frame (none for a value that is neither a string
  nor a buffer), what \<^verbatim>\<open>readBuffer\<close> is to return for it, and when a length array can
  record \<open>n\<close> lengths of fields of a buffer of \<open>len\<close> bytes: a plain array always, an
  \<^verbatim>\<open>Int32Array\<close> when it has \<open>n\<close> entries and \<open>len\<close> is a signed 32-bit integer.
\<close>

definition field_bytes :: "jsval \<Rightarrow> bytes" where
  "field_bytes element = (case element_bytes element of None \<Rightarrow> [] | Some b \<Rightarrow> b)"

definition read_back :: "jsval \<Rightarrow> bytes option" where
  "read_back element = (if field_bytes element = [] then None else Some (field_bytes element))"

fun sizes_hold :: "sizes_array \<Rightarrow> nat \<Rightarrow> nat \<Rightarrow> bool" where
  "sizes_hold (PlainArray xs) n len = True"
| "sizes_hold (Int32Array xs) n len = (n \<le> length xs \<and> len < 2 ^ 31)"

text \<open>
  When a length array keeps what is stored at position \<open>i\<close>: a plain array always, an
  \<^verbatim>\<open>Int32Array\<close> when \<open>i\<close> is one of its entries.
\<close>

fun recordable :: "sizes_array \<Rightarrow> nat \<Rightarrow> bool" where
  "recordable (PlainArray xs) i = True"
| "recordable (Int32Array xs) i = (i < length xs)"

text \<open>
  A set of outside operations for the evaluations below: signing fails with the adapter's
  \<^verbatim>\<open>TokenError\<close>, which wraps its cause, when the secret is neither a string nor a
  buffer, and yields a fixed signature otherwise; verifying compares with that signature.
\<close>

definition example_cause :: js_error where
  "example_cause =
     JsError ErrorClass None (Some ''bad key'') (Some ''Error: at crypto'') None"

definition example_error :: js_error where
  "example_error =
     JsError TokenErrorClass (Some ''FAST_JWT_SIGN_ERROR'')
       (Some ''Cannot create the signature.'') (Some ''TokenError: at sign'')
       (Some example_cause)"

definition example_adapter :: adapter where
  "example_adapter =
     \<lparr>createSignature = (\<lambda>algorithm secret header payload.
          if element_bytes secret = None then Inl example_error else Inr ''c2ln''),
      verifySignature = (\<lambda>algorithm secret input signature. Inr (signature = String ''c2ln'')),
      workerError = ''FAST_JWT_WORKER_ERROR'',
      typeError = JsError TypeErrorClass None (Some ''Cannot read property of undefined'')
                    (Some ''TypeError: at worker'') None,
      workerStack = ''TokenError: at worker''\<rparr>"

text \<open>
  The values one acquisition hands to its callback, read off a run whose callback only
  records its argument, and the calls of callers' callbacks among the effects.
\<close>

definition acquired :: "schedule \<Rightarrow> pool \<Rightarrow> int \<Rightarrow> worker_ref list" where
  "acquired sched st attempts =
     [w. Invoked w \<leftarrow> snd (getAvailableWorker_run (\<lambda>w st'. (st', [Invoked w])) sched st attempts)]"

definition callbacks :: "effect list \<Rightarrow> (nat \<times> (js_error + result)) list" where
  "callbacks out = [(cb, r). Callback cb r \<leftarrow> out]"

text \<open>
  The head of the availability queue as a value (\<^verbatim>\<open>undefined\<close> when the queue is empty or
  has a hole there), whether that head is an index a request can be offloaded to, the
  pool as the attempt after \<open>n\<close> timers of an acquisition finds it (each attempt before it
  has taken the head off the queue, then the rest of the program has run while the timer
  waited), and the delays of these \<open>n\<close> timers.
\<close>

definition head_ref :: "nat option list \<Rightarrow> worker_ref" where
  "head_ref q = (case q of Some i # _ \<Rightarrow> Index i | _ \<Rightarrow> Undefined_ref)"

definition head_usable :: "nat option list \<Rightarrow> bool" where
  "head_usable q = (case q of Some i # _ \<Rightarrow> 0 < i | _ \<Rightarrow> False)"

fun waited :: "schedule \<Rightarrow> pool \<Rightarrow> nat \<Rightarrow> pool" where
  "waited sched st 0 = st"
| "waited sched st (Suc n) =
     waited (tl sched) (meanwhile sched (st\<lparr>availableWorkers := tl (availableWorkers st)\<rparr>)) n"

definition backoff :: "schedule \<Rightarrow> nat \<Rightarrow> nat list" where
  "backoff sched n =
     map (\<lambda>j. nat \<lfloor>double_round (next_random (drop j sched) * 10)\<rfloor>) [0..<n]"










text \<open>
  The operations in flight on slot \<open>i\<close>: those of worker \<open>i\<close> of the pool and those of the
  terminated workers that had index \<open>i\<close>. The request region of slot \<open>i\<close> is what the
  module's arrays hold there, the request buffer and the array of lengths; a terminated
  worker has its own.
\<close>

definition held :: "retired_worker list \<Rightarrow> nat \<Rightarrow> nat" where
  "held rs i = sum_list (map (\<lambda>r. in_flight (thread r)) (filter (\<lambda>r. slot r = i) rs))"

definition operations :: "event_loop \<Rightarrow> nat \<Rightarrow> nat" where
  "operations m i =
     (if i < length (workers (state m)) then in_flight (workers (state m) ! i) else 0)
     + held (terminated m) i"

definition request_region :: "pool \<Rightarrow> nat \<Rightarrow> bytes option \<times> sizes_array option" where
  "request_region st i =
     (js_index (requestsSharedBuffers st) i, js_index (requestsSizesArray st) i)"

definition own_request_region :: "retired_worker \<Rightarrow> bytes option \<times> sizes_array option" where
  "own_request_region r = (request_bytes r, request_sizes r)"

text \<open>
  The invariant of the availability protocol: every index above 0 is queued at most
  once and, while an operation is in flight on its slot, not at all; slot 0 has no
  operation in flight; the listener installed on a worker releases that worker's index.
  \<open>h\<close> counts the operations in flight on terminated workers.
\<close>

fun listener_index :: "listener \<Rightarrow> nat" where
  "listener_index (SignReply workerIndex callback) = workerIndex"
| "listener_index (VerifyReply workerIndex callback) = workerIndex"

definition excl :: "(nat \<Rightarrow> nat) \<Rightarrow> nat option list \<Rightarrow> worker list \<Rightarrow> bool" where
  "excl h q ws =
     ((\<forall>i. 0 < i \<longrightarrow>
          count_list q (Some i) + (if i < length ws then in_flight (ws ! i) else 0) + h i \<le> 1)
      \<and> (0 < length ws \<longrightarrow> in_flight (ws ! 0) = 0)
      \<and> h 0 = 0
      \<and> (\<forall>i < length ws. \<forall>l. listener (ws ! i) = Some l \<longrightarrow> listener_index l = i))"

definition exclusive_pool :: "(nat \<Rightarrow> nat) \<Rightarrow> pool \<Rightarrow> bool" where
  "exclusive_pool h st = excl h (availableWorkers st) (workers st)"

definition exclusive :: "event_loop \<Rightarrow> bool" where
  "exclusive m =
     (excl (held (terminated m)) (availableWorkers (state m)) (workers (state m))
      \<and> (\<forall>r \<in> set (terminated m). \<forall>l. listener (thread r) = Some l \<longrightarrow> listener_index l = slot r))"

section \<open>Framing: lemmas\<close>

lemma copy_fits:
  "targetStart + length source \<le> length target \<Longrightarrow>
   copy source target targetStart =
     (take targetStart target @ source @ drop (targetStart + length source) target, length source)"
  by (cases "length source \<le> length target - targetStart")
     (simp_all add: copy_def Let_def min_def)

lemma length_copy: "length (fst (copy source target targetStart)) = length target"
  by (auto simp: copy_def Let_def min_def)

lemma to_int32_small: "0 \<le> v \<Longrightarrow> v < 2 ^ 31 \<Longrightarrow> to_int32 v = v"
  unfolding to_int32_def
  by (simp add: sint_sbintrunc' signed_take_bit_int_eq_self)

lemma sizes_get_set_other: "j \<noteq> i \<Longrightarrow> sizes_get (sizes_set sz i v) j = sizes_get sz j"
  by (cases sz) (auto simp: nth_append)

lemma sizes_get_set_same:
  "sizes_hold sz (Suc i) len \<Longrightarrow> 0 \<le> v \<Longrightarrow> v \<le> int len \<Longrightarrow>
   sizes_get (sizes_set sz i v) i = Some v"
  by (cases sz) (auto simp: nth_append to_int32_small)

lemma sizes_hold_set: "sizes_hold (sizes_set sz i v) n len = sizes_hold sz n len"
  by (cases sz) auto

lemma sizes_hold_mono: "sizes_hold sz n len \<Longrightarrow> m \<le> n \<Longrightarrow> sizes_hold sz m len"
  by (cases sz) auto

lemma writeBuffer_loop_bytes:
  "offset + length (concat (map field_bytes elements)) \<le> length buffer \<Longrightarrow>
   fst (writeBuffer_loop buffer sizesArray elements i offset) =
     take offset buffer @ concat (map field_bytes elements) @
     drop (offset + length (concat (map field_bytes elements))) buffer"
proof (induction elements arbitrary: buffer sizesArray i offset)
  case Nil
  then show ?case by simp
next
  case (Cons element elements)
  show ?case
  proof (cases "element_bytes element")
    case None
    then have fb: "field_bytes element = []" by (simp add: field_bytes_def)
    from Cons.prems fb have "offset + length (concat (map field_bytes elements)) \<le> length buffer"
      by simp
    from Cons.IH [OF this] None fb show ?thesis by simp
  next
    case (Some source)
    then have fb: "field_bytes element = source" by (simp add: field_bytes_def)
    let ?rest = "concat (map field_bytes elements)"
    from Cons.prems fb have fit: "offset + length source \<le> length buffer"
      and fit': "offset + length source + length ?rest \<le> length buffer" by simp_all
    let ?b = "take offset buffer @ source @ drop (offset + length source) buffer"
    have c: "copy source buffer offset = (?b, length source)" using fit by (rule copy_fits)
    have len: "length ?b = length buffer" using fit by simp
    have "fst (writeBuffer_loop ?b (sizes_set sizesArray i (int (length source))) elements (i + 1)
             (offset + length source)) =
          take (offset + length source) ?b @ ?rest @ drop (offset + length source + length ?rest) ?b"
      using Cons.IH [of "offset + length source" ?b] fit' len by simp
    moreover have "take (offset + length source) ?b = take offset buffer @ source"
      using fit by simp
    moreover have "drop (offset + length source + length ?rest) ?b =
                   drop (offset + length source + length ?rest) buffer"
      using fit by (simp add: add.commute add.left_commute)
    ultimately show ?thesis using Some fb c by (simp add: add.assoc)
  qed
qed

lemma writeBuffer_loop_sizes_before:
  "j < i \<Longrightarrow> sizes_get (snd (writeBuffer_loop buffer sizesArray elements i offset)) j =
     sizes_get sizesArray j"
proof (induction elements arbitrary: buffer sizesArray i offset)
  case Nil
  then show ?case by simp
next
  case (Cons element elements)
  then show ?case
    by (cases "element_bytes element") (simp_all add: sizes_get_set_other)
qed

lemma writeBuffer_loop_sizes:
  assumes "offset + length (concat (map field_bytes elements)) \<le> length buffer"
    and "sizes_hold sizesArray (i + length elements) (length buffer)"
    and "k < length elements"
  shows "sizes_get (snd (writeBuffer_loop buffer sizesArray elements i offset)) (i + k) =
           Some (int (length (field_bytes (elements ! k))))"
  using assms
proof (induction elements arbitrary: buffer sizesArray i offset k)
  case Nil
  then show ?case by simp
next
  case (Cons element elements)
  let ?src = "field_bytes element"
  let ?b = "fst (copy ?src buffer offset)"
  have fit: "offset + length ?src \<le> length buffer" using Cons.prems(1) by simp
  have c: "copy ?src buffer offset =
             (take offset buffer @ ?src @ drop (offset + length ?src) buffer, length ?src)"
    using fit by (rule copy_fits)
  have lenb: "length ?b = length buffer" by (rule length_copy)
  have hold1: "sizes_hold sizesArray (Suc i) (length buffer)"
    using Cons.prems(2) by (auto intro: sizes_hold_mono)
  have step: "writeBuffer_loop buffer sizesArray (element # elements) i offset =
              writeBuffer_loop ?b (sizes_set sizesArray i (int (length ?src))) elements (Suc i)
                (offset + length ?src)"
  proof (cases "element_bytes element")
    case None
    then have "?src = []" by (simp add: field_bytes_def)
    then show ?thesis using None by (simp add: copy_def)
  next
    case (Some source)
    then have "?src = source" by (simp add: field_bytes_def)
    then show ?thesis using Some c by simp
  qed
  show ?case
  proof (cases k)
    case 0
    have "sizes_get (snd (writeBuffer_loop ?b (sizes_set sizesArray i (int (length ?src))) elements
             (Suc i) (offset + length ?src))) i =
          sizes_get (sizes_set sizesArray i (int (length ?src))) i"
      by (rule writeBuffer_loop_sizes_before) simp
    also have "\<dots> = Some (int (length ?src))"
      using hold1 fit by (intro sizes_get_set_same [where len = "length buffer"]) simp_all
    finally show ?thesis using 0 step by simp
  next
    case (Suc k')
    have "sizes_get (snd (writeBuffer_loop ?b (sizes_set sizesArray i (int (length ?src))) elements
             (Suc i) (offset + length ?src))) (Suc i + k') =
          Some (int (length (field_bytes (elements ! k'))))"
    proof (rule Cons.IH)
      show "offset + length ?src + length (concat (map field_bytes elements)) \<le> length ?b"
        using Cons.prems(1) lenb by simp
      show "sizes_hold (sizes_set sizesArray i (int (length ?src))) (Suc i + length elements)
              (length ?b)"
        using Cons.prems(2) lenb by (simp add: sizes_hold_set)
      show "k' < length elements" using Cons.prems(3) Suc by simp
    qed
    then show ?thesis using Suc step by simp
  qed
qed

lemma adjustOffset_inside: "n \<le> len \<Longrightarrow> adjustOffset (Some (int n)) len = n"
  by auto

lemma slice_field:
  assumes "buffer = pre @ b @ post" and "b \<noteq> []"
  shows "slice buffer (Some (int (length pre))) (Some (int (length pre) + int (length b))) = b"
proof -
  have e: "int (length pre) + int (length b) = int (length pre + length b)" by simp
  have "adjustOffset (Some (int (length pre))) (length buffer) = length pre"
    using assms(1) by (intro adjustOffset_inside) simp
  moreover have "adjustOffset (Some (int (length pre + length b))) (length buffer) =
                 length pre + length b"
    using assms(1) by (intro adjustOffset_inside) simp
  ultimately show ?thesis
    using assms unfolding slice_def e by (simp add: Let_def)
qed

lemma readBuffer_loop_fields:
  assumes "buffer = pre @ concat bs @ post"
    and "\<forall>k < length bs. sizes_get sizesArray (i + k) = Some (int (length (bs ! k)))"
  shows "readBuffer_loop buffer sizesArray (i + length bs) i
           (Some (int (length pre))) (Some (int (length pre))) elements =
         elements @ map (\<lambda>b. if b = [] then None else Some b) bs"
  using assms
proof (induction bs arbitrary: pre i elements)
  case Nil
  then show ?case by (simp add: readBuffer_loop.simps)
next
  case (Cons b bs)
  have sz: "sizes_get sizesArray i = Some (int (length b))"
    using Cons.prems(2) by auto
  have rest: "\<forall>k < length bs. sizes_get sizesArray (Suc i + k) = Some (int (length (bs ! k)))"
    using Cons.prems(2) by auto
  have buf: "buffer = (pre @ b) @ concat bs @ post" using Cons.prems(1) by simp
  have IH: "readBuffer_loop buffer sizesArray (Suc i + length bs) (Suc i)
              (Some (int (length (pre @ b)))) (Some (int (length (pre @ b)))) els =
            els @ map (\<lambda>b. if b = [] then None else Some b) bs" for els
    using Cons.IH [OF buf rest] .
  have sl: "b \<noteq> [] \<Longrightarrow>
            slice buffer (Some (int (length pre))) (Some (int (length pre) + int (length b))) = b"
    using Cons.prems(1) by (intro slice_field [where post = "concat bs @ post"]) simp_all
  show ?case
    using IH sz sl
    by (subst readBuffer_loop.simps) (auto simp: add.commute)
qed

lemma frame_fields:
  assumes "length (concat (map field_bytes elements)) \<le> length buffer"
    and "sizes_hold sizesArray (length elements) (length buffer)"
  shows "fst (writeBuffer buffer sizesArray elements) =
           concat (map field_bytes elements) @
           drop (length (concat (map field_bytes elements))) buffer"
    and "\<forall>k < length elements.
           sizes_get (snd (writeBuffer buffer sizesArray elements)) k =
             Some (int (length (field_bytes (elements ! k))))"
    and "readBuffer (fst (writeBuffer buffer sizesArray elements))
           (snd (writeBuffer buffer sizesArray elements)) (length elements) =
         map read_back elements"
proof -
  let ?w = "writeBuffer buffer sizesArray elements"
  let ?bs = "map field_bytes elements"
  show b: "fst ?w = concat ?bs @ drop (length (concat ?bs)) buffer"
    using writeBuffer_loop_bytes [of 0 elements buffer sizesArray 0] assms(1)
    by (simp add: writeBuffer_def)
  show s: "\<forall>k < length elements.
           sizes_get (snd ?w) k = Some (int (length (field_bytes (elements ! k))))"
    using writeBuffer_loop_sizes [of 0 elements buffer sizesArray 0] assms
    by (simp add: writeBuffer_def)
  have "readBuffer_loop (fst ?w) (snd ?w) (0 + length ?bs) 0
           (Some (int (length ([]::bytes)))) (Some (int (length ([]::bytes)))) [] =
        [] @ map (\<lambda>b. if b = [] then None else Some b) ?bs"
  proof (rule readBuffer_loop_fields)
    show "fst ?w = [] @ concat ?bs @ drop (length (concat ?bs)) buffer" using b by simp
    show "\<forall>k<length ?bs. sizes_get (snd ?w) (0 + k) = Some (int (length (?bs ! k)))"
      using s by simp
  qed
  then show "readBuffer (fst ?w) (snd ?w) (length elements) = map read_back elements"
    by (simp add: readBuffer_def read_back_def comp_def)
qed

lemma writeBuffer_loop_empty_field:
  "field_bytes e = [] \<Longrightarrow> field_bytes e' = [] \<Longrightarrow>
   writeBuffer_loop buffer sizesArray (xs @ e # ys) i offset =
   writeBuffer_loop buffer sizesArray (xs @ e' # ys) i offset"
proof (induction xs arbitrary: buffer sizesArray i offset)
  case Nil
  have "writeBuffer_loop buffer sizesArray (x # ys) i offset =
        writeBuffer_loop buffer (sizes_set sizesArray i 0) ys (i + 1) offset"
    if "field_bytes x = []" for x
    using that by (cases "element_bytes x") (simp_all add: field_bytes_def copy_def)
  then show ?case using Nil by simp
next
  case (Cons x xs)
  then show ?case by (cases "element_bytes x") simp_all
qed

lemma recordable_set: "recordable (sizes_set sz j v) i = recordable sz i"
  by (cases sz) auto

lemma recordable_mono: "recordable sz i \<Longrightarrow> j \<le> i \<Longrightarrow> recordable sz j"
  by (cases sz) auto

lemma to_int32_zero: "to_int32 0 = 0"
  by (simp add: to_int32_def)

lemma sizes_get_set_recordable:
  "recordable sz i \<Longrightarrow>
   \<exists>w. sizes_get (sizes_set sz i v) i = Some w \<and> (v = 0 \<longrightarrow> w = 0)"
  by (cases sz) (auto simp: nth_append to_int32_zero)

lemma writeBuffer_loop_step:
  "writeBuffer_loop buffer sizesArray (element # elements) i offset =
     writeBuffer_loop (fst (copy (field_bytes element) buffer offset))
       (sizes_set sizesArray i (int (snd (copy (field_bytes element) buffer offset))))
       elements (Suc i) (offset + snd (copy (field_bytes element) buffer offset))"
  by (cases "element_bytes element") (simp_all add: field_bytes_def copy_def)

lemma writeBuffer_loop_recorded:
  assumes "recordable sizesArray (i + k)" and "k < length elements"
  shows "\<exists>w. sizes_get (snd (writeBuffer_loop buffer sizesArray elements i offset)) (i + k) = Some w
             \<and> (field_bytes (elements ! k) = [] \<longrightarrow> w = 0)"
  using assms
proof (induction elements arbitrary: buffer sizesArray i offset k)
  case Nil
  then show ?case by simp
next
  case (Cons element elements)
  let ?src = "field_bytes element"
  let ?b = "fst (copy ?src buffer offset)"
  let ?n = "snd (copy ?src buffer offset)"
  note step = writeBuffer_loop_step [of buffer sizesArray element elements i offset]
  show ?case
  proof (cases k)
    case 0
    have "sizes_get (snd (writeBuffer_loop ?b (sizes_set sizesArray i (int ?n)) elements
             (Suc i) (offset + ?n))) i =
          sizes_get (sizes_set sizesArray i (int ?n)) i"
      by (rule writeBuffer_loop_sizes_before) simp
    moreover have "recordable sizesArray i" using Cons.prems(1) 0 by simp
    from sizes_get_set_recordable [OF this, of "int ?n"]
    obtain w where "sizes_get (sizes_set sizesArray i (int ?n)) i = Some w"
      and "int ?n = 0 \<longrightarrow> w = 0" by blast
    moreover have "?src = [] \<Longrightarrow> ?n = 0" by (simp add: copy_def)
    ultimately show ?thesis using 0 step by simp
  next
    case (Suc k')
    have "\<exists>w. sizes_get (snd (writeBuffer_loop ?b (sizes_set sizesArray i (int ?n)) elements
             (Suc i) (offset + ?n))) (Suc i + k') = Some w
             \<and> (field_bytes (elements ! k') = [] \<longrightarrow> w = 0)"
    proof (rule Cons.IH)
      show "recordable (sizes_set sizesArray i (int ?n)) (Suc i + k')"
        using Cons.prems(1) Suc by (simp add: recordable_set)
      show "k' < length elements" using Cons.prems(2) Suc by simp
    qed
    then show ?thesis using Suc step by simp
  qed
qed

lemma readBuffer_loop_append:
  "readBuffer_loop buffer sizesArray n i start end elements =
     elements @ readBuffer_loop buffer sizesArray n i start end []"
proof (induction "n - i" arbitrary: i start "end" elements)
  case 0
  then show ?case by (simp add: readBuffer_loop.simps)
next
  case (Suc d)
  then have lt: "i < n" and d: "d = n - (i + 1)" by simp_all
  let ?s = "js_add start (sizes_get sizesArray i)"
  let ?e = "js_add end (sizes_get sizesArray i)"
  let ?x = "if js_strict_neq start ?e then Some (slice buffer start ?e) else None"
  have l: "readBuffer_loop buffer sizesArray n i start end elements =
           readBuffer_loop buffer sizesArray n (i + 1) ?s ?e (elements @ [?x])"
    using lt by (subst readBuffer_loop.simps) simp
  have r: "readBuffer_loop buffer sizesArray n i start end [] =
           readBuffer_loop buffer sizesArray n (i + 1) ?s ?e [?x]"
    using lt by (subst readBuffer_loop.simps) simp
  have "readBuffer_loop buffer sizesArray n (i + 1) ?s ?e (elements @ [?x]) =
        (elements @ [?x]) @ readBuffer_loop buffer sizesArray n (i + 1) ?s ?e []"
    by (rule Suc.hyps(1) [OF d])
  moreover have "readBuffer_loop buffer sizesArray n (i + 1) ?s ?e [?x] =
        [?x] @ readBuffer_loop buffer sizesArray n (i + 1) ?s ?e []"
    by (rule Suc.hyps(1) [OF d])
  ultimately show ?case unfolding l r by (simp only: append_assoc)
qed

lemma readBuffer_loop_absent:
  assumes "\<forall>j. i \<le> j \<and> j < p \<longrightarrow> sizes_get sizesArray j \<noteq> None"
    and "sizes_get sizesArray p = Some 0" and "i \<le> p" and "p < n"
  shows "readBuffer_loop buffer sizesArray n i (Some v) (Some v) elements
           ! (length elements + (p - i)) = None"
  using assms
proof (induction "p - i" arbitrary: i v elements)
  case 0
  then have ip: "i = p" by simp
  have "readBuffer_loop buffer sizesArray n p (Some v) (Some v) elements =
        readBuffer_loop buffer sizesArray n (p + 1) (Some v) (Some v) (elements @ [None])"
    using 0 by (subst readBuffer_loop.simps) simp
  also have "\<dots> = (elements @ [None]) @
          readBuffer_loop buffer sizesArray n (p + 1) (Some v) (Some v) []"
    by (rule readBuffer_loop_append)
  finally show ?case using ip by (simp add: nth_append)
next
  case (Suc d)
  then have lt: "i < p" and d: "d = p - Suc i" by simp_all
  obtain w where w: "sizes_get sizesArray i = Some w" using Suc.prems(1) lt by auto
  let ?x = "if js_strict_neq (Some v) (Some (v + w))
            then Some (slice buffer (Some v) (Some (v + w))) else None"
  have un: "readBuffer_loop buffer sizesArray n i (Some v) (Some v) elements =
        readBuffer_loop buffer sizesArray n (Suc i) (Some (v + w)) (Some (v + w)) (elements @ [?x])"
    using lt Suc.prems(4) w by (subst readBuffer_loop.simps) simp
  have A: "readBuffer_loop buffer sizesArray n (Suc i) (Some (v + w)) (Some (v + w)) (elements @ [?x])
          ! (length (elements @ [?x]) + (p - Suc i)) = None"
    using Suc.prems lt by (intro Suc.hyps(1) [OF d]) auto
  have B: "length (elements @ [?x]) + (p - Suc i) = length elements + (p - i)"
    using lt by simp
  show ?case unfolding un using A unfolding B .
qed

lemma empty_field_absent:
  assumes "recordable sizesArray p" and "p < length elements" and "field_bytes (elements ! p) = []"
    and "p < n"
  shows "sizes_get (snd (writeBuffer buffer sizesArray elements)) p = Some 0"
    and "readBuffer (fst (writeBuffer buffer sizesArray elements))
           (snd (writeBuffer buffer sizesArray elements)) n ! p = None"
proof -
  let ?w = "writeBuffer buffer sizesArray elements"
  have rec: "\<exists>w. sizes_get (snd ?w) k = Some w \<and> (field_bytes (elements ! k) = [] \<longrightarrow> w = 0)"
    if "k \<le> p" for k
    using writeBuffer_loop_recorded [of sizesArray 0 k elements buffer 0] that assms(1,2)
      recordable_mono [OF assms(1) that]
    by (simp add: writeBuffer_def)
  show z: "sizes_get (snd ?w) p = Some 0" using rec [of p] assms(3) by auto
  have "readBuffer_loop (fst ?w) (snd ?w) n 0 (Some 0) (Some 0) [] ! (length ([]::bytes option list) + (p - 0))
          = None"
  proof (rule readBuffer_loop_absent)
    show "\<forall>j. 0 \<le> j \<and> j < p \<longrightarrow> sizes_get (snd ?w) j \<noteq> None"
    proof (intro allI impI)
      fix j assume "0 \<le> j \<and> j < p"
      then have "j \<le> p" by simp
      from rec [OF this] show "sizes_get (snd ?w) j \<noteq> None" by auto
    qed
  qed (use z assms(4) in simp_all)
  then show "readBuffer (fst ?w) (snd ?w) n ! p = None" by (simp add: readBuffer_def)
qed

section \<open>Framing: the round trip\<close>

text \<open>
  C5, amended. For every list of fields whose total byte length fits the buffer and whose
  lengths the length array can record (a plain array always; an \<^verbatim>\<open>Int32Array\<close> when it
  has an entry for each field and the buffer is shorter than \<open>2^31\<close> bytes),
  \<^verbatim>\<open>writeBuffer\<close> packs the bytes of the string and buffer fields contiguously in order
  from offset 0, records each field's byte length, and records 0 for every field that
  is neither a string nor a buffer; \<^verbatim>\<open>readBuffer\<close> over the same buffer, length array and
  field count returns the original bytes of each framed field and \<^verbatim>\<open>undefined\<close> at each
  position of length 0.
\<close>

theorem writeBuffer_readBuffer_round_trip:
  assumes "length (concat (map field_bytes elements)) \<le> length buffer"
    and "sizes_hold sizesArray (length elements) (length buffer)"
  shows "fst (writeBuffer buffer sizesArray elements) =
           concat (map field_bytes elements) @
           drop (length (concat (map field_bytes elements))) buffer
       \<and> (\<forall>k < length elements.
            sizes_get (snd (writeBuffer buffer sizesArray elements)) k =
              Some (int (length (field_bytes (elements ! k)))))
       \<and> (\<forall>k < length elements. element_bytes (elements ! k) = None \<longrightarrow>
            sizes_get (snd (writeBuffer buffer sizesArray elements)) k = Some 0)
       \<and> readBuffer (fst (writeBuffer buffer sizesArray elements))
           (snd (writeBuffer buffer sizesArray elements)) (length elements) =
         map read_back elements"
proof -
  note f = frame_fields [OF assms]
  have "sizes_get (snd (writeBuffer buffer sizesArray elements)) k = Some 0"
    if "k < length elements" and "element_bytes (elements ! k) = None" for k
    using f(2) that by (simp add: field_bytes_def)
  with f show ?thesis by blast
qed

theorem writeBuffer_readBuffer_round_trip_witness:
  "fst (writeBuffer (replicate 20 (CHR 0x00)) (Int32Array (replicate 10 0))
          [String ''0'', String ''1'', Undefined, String ''123'', Null]) =
     ''01123'' @ replicate 15 (CHR 0x00)
   \<and> snd (writeBuffer (replicate 20 (CHR 0x00)) (Int32Array (replicate 10 0))
          [String ''0'', String ''1'', Undefined, String ''123'', Null]) =
     Int32Array [1, 1, 0, 3, 0, 0, 0, 0, 0, 0]
   \<and> readBuffer
       (fst (writeBuffer (replicate 20 (CHR 0x00)) (Int32Array (replicate 10 0))
          [String ''0'', String ''1'', Undefined, String ''123'', Null]))
       (snd (writeBuffer (replicate 20 (CHR 0x00)) (Int32Array (replicate 10 0))
          [String ''0'', String ''1'', Undefined, String ''123'', Null])) 5 =
     [Some ''0'', Some ''1'', None, Some ''123'', None]"
proof -
  let ?E = "[String ''0'', String ''1'', Undefined, String ''123'', Null]"
  let ?B = "replicate 20 (CHR 0x00)"
  let ?S = "Int32Array (replicate 10 0)"
  have fits: "length (concat (map field_bytes ?E)) \<le> length ?B"
    by (simp add: field_bytes_def)
  have holds: "sizes_hold ?S (length ?E) (length ?B)"
    by simp
  note t = writeBuffer_readBuffer_round_trip [OF fits holds]
  have len: "length ?E = 5" by simp
  have "fst (writeBuffer ?B ?S ?E) =
          concat (map field_bytes ?E) @ drop (length (concat (map field_bytes ?E))) ?B"
    using t by blast
  then have bytes: "fst (writeBuffer ?B ?S ?E) = ''01123'' @ replicate 15 (CHR 0x00)"
    by (simp add: field_bytes_def)
  have "readBuffer (fst (writeBuffer ?B ?S ?E)) (snd (writeBuffer ?B ?S ?E)) (length ?E) =
          map read_back ?E"
    using t by blast
  then have fields: "readBuffer (fst (writeBuffer ?B ?S ?E)) (snd (writeBuffer ?B ?S ?E)) 5 =
          [Some ''0'', Some ''1'', None, Some ''123'', None]"
    unfolding len by (simp add: field_bytes_def read_back_def)
  have sizes: "snd (writeBuffer ?B ?S ?E) = Int32Array [1, 1, 0, 3, 0, 0, 0, 0, 0, 0]"
    by code_simp
  from bytes sizes fields show ?thesis by blast
qed

text \<open>
  The claim as stated, for every list of fields that fits the buffer, fails on the
  length arrays of the pool: an \<^verbatim>\<open>Int32Array\<close> of ten entries drops the length of an
  eleventh field, and \<^verbatim>\<open>readBuffer\<close> returns an empty buffer for it.
\<close>

theorem writeBuffer_readBuffer_round_trip_counterexample:
  "length (concat (map field_bytes
      [String ''a'', String ''b'', String ''c'', String ''d'', String ''e'', String ''f'',
       String ''g'', String ''h'', String ''i'', String ''j'', String ''k'']))
     \<le> length (replicate 20 (CHR 0x00))
   \<and> readBuffer
       (fst (writeBuffer (replicate 20 (CHR 0x00)) (Int32Array (replicate 10 0))
          [String ''a'', String ''b'', String ''c'', String ''d'', String ''e'', String ''f'',
           String ''g'', String ''h'', String ''i'', String ''j'', String ''k'']))
       (snd (writeBuffer (replicate 20 (CHR 0x00)) (Int32Array (replicate 10 0))
          [String ''a'', String ''b'', String ''c'', String ''d'', String ''e'', String ''f'',
           String ''g'', String ''h'', String ''i'', String ''j'', String ''k''])) 11
     = [Some ''a'', Some ''b'', Some ''c'', Some ''d'', Some ''e'', Some ''f'',
        Some ''g'', Some ''h'', Some ''i'', Some ''j'', Some []]
   \<and> map read_back
      [String ''a'', String ''b'', String ''c'', String ''d'', String ''e'', String ''f'',
       String ''g'', String ''h'', String ''i'', String ''j'', String ''k'']
     = [Some ''a'', Some ''b'', Some ''c'', Some ''d'', Some ''e'', Some ''f'',
        Some ''g'', Some ''h'', Some ''i'', Some ''j'', Some ''k'']"
  by (simp add: writeBuffer_def readBuffer_def copy_def readBuffer_loop.simps slice_def
        to_int32_def field_bytes_def read_back_def)

text \<open>
  C10, amended. For every field list, replacing an empty-string element by an element
  that is neither a string nor a buffer, or by an empty buffer, yields identical sizes,
  buffer contents and \<^verbatim>\<open>readBuffer\<close> output. And an empty string framed at a position the
  length array keeps (any position of a plain array, an entry of an \<^verbatim>\<open>Int32Array\<close>) is
  recorded with length 0 and read back as \<^verbatim>\<open>undefined\<close>, whatever the other fields and
  the size of the buffer are.
\<close>

theorem empty_string_framed_as_absent:
  assumes "element_bytes e = None \<or> element_bytes e = Some []"
  shows "writeBuffer buffer sizesArray (xs @ String [] # ys) =
           writeBuffer buffer sizesArray (xs @ e # ys)
       \<and> readBuffer (fst (writeBuffer buffer sizesArray (xs @ String [] # ys)))
           (snd (writeBuffer buffer sizesArray (xs @ String [] # ys))) n =
         readBuffer (fst (writeBuffer buffer sizesArray (xs @ e # ys)))
           (snd (writeBuffer buffer sizesArray (xs @ e # ys))) n
       \<and> (recordable sizesArray (length xs) \<longrightarrow>
            sizes_get (snd (writeBuffer buffer sizesArray (xs @ String [] # ys))) (length xs)
              = Some 0
          \<and> (length xs < n \<longrightarrow>
               readBuffer (fst (writeBuffer buffer sizesArray (xs @ String [] # ys)))
                 (snd (writeBuffer buffer sizesArray (xs @ String [] # ys))) n ! length xs
                 = None))"
proof -
  have e: "field_bytes e = []" using assms by (auto simp: field_bytes_def)
  have s: "field_bytes (String []) = []" by (simp add: field_bytes_def)
  have same: "writeBuffer buffer sizesArray (xs @ String [] # ys) =
              writeBuffer buffer sizesArray (xs @ e # ys)"
    unfolding writeBuffer_def using s e by (rule writeBuffer_loop_empty_field)
  have k: "length xs < length (xs @ String [] # ys)" by simp
  have f: "field_bytes ((xs @ String [] # ys) ! length xs) = []" using s by simp
  have "sizes_get (snd (writeBuffer buffer sizesArray (xs @ String [] # ys))) (length xs) = Some 0"
    if "recordable sizesArray (length xs)"
    using that k f by (rule empty_field_absent(1) [where n = "Suc (length xs)"]) simp
  moreover have "readBuffer (fst (writeBuffer buffer sizesArray (xs @ String [] # ys)))
                 (snd (writeBuffer buffer sizesArray (xs @ String [] # ys))) n ! length xs = None"
    if "recordable sizesArray (length xs)" and "length xs < n"
    using that(1) k f that(2) by (rule empty_field_absent(2))
  ultimately show ?thesis using same by simp
qed

theorem empty_string_framed_as_absent_witness:
  "recordable (Int32Array (replicate 10 0)) (length [String ''abc''])
   \<and> writeBuffer (replicate 2 (CHR 0x00)) (Int32Array (replicate 10 0))
       ([String ''abc''] @ String [] # [String ''d'']) =
     writeBuffer (replicate 2 (CHR 0x00)) (Int32Array (replicate 10 0))
       ([String ''abc''] @ Undefined # [String ''d''])
   \<and> sizes_get (snd (writeBuffer (replicate 2 (CHR 0x00)) (Int32Array (replicate 10 0))
          ([String ''abc''] @ String [] # [String ''d'']))) (length [String ''abc'']) = Some 0
   \<and> readBuffer
       (fst (writeBuffer (replicate 2 (CHR 0x00)) (Int32Array (replicate 10 0))
          ([String ''abc''] @ String [] # [String ''d''])))
       (snd (writeBuffer (replicate 2 (CHR 0x00)) (Int32Array (replicate 10 0))
          ([String ''abc''] @ String [] # [String ''d''])))
       3 ! length [String ''abc''] = None"
proof -
  have absent: "element_bytes Undefined = None \<or> element_bytes Undefined = Some []" by simp
  have kept: "recordable (Int32Array (replicate 10 0)) (length [String ''abc''])" by simp
  have inside: "length [String ''abc''] < (3::nat)" by simp
  show ?thesis
    using empty_string_framed_as_absent [OF absent, of "replicate 2 (CHR 0x00)"
        "Int32Array (replicate 10 0)" "[String ''abc'']" "[String ''d'']" 3] kept inside
    by blast
qed

text \<open>
  The claim as stated allows any element that is not a string in place of the empty
  string, and any position for the empty string. A buffer that holds a byte is framed
  with its length; and an \<^verbatim>\<open>Int32Array\<close> of ten entries, as the pool allocates, drops the
  length of an eleventh field, so that an empty string there has no recorded length and
  is read back as an empty buffer.
\<close>

theorem empty_string_framed_as_absent_counterexample:
  "writeBuffer (replicate 4 (CHR 0x00)) (Int32Array (replicate 10 0)) [String []] \<noteq>
   writeBuffer (replicate 4 (CHR 0x00)) (Int32Array (replicate 10 0)) [Buffer ''a'']
   \<and> sizes_get (snd (writeBuffer (replicate 20 (CHR 0x00)) (Int32Array (replicate 10 0))
        [String ''a'', String ''b'', String ''c'', String ''d'', String ''e'', String ''f'',
         String ''g'', String ''h'', String ''i'', String ''j'', String []])) 10 = None
   \<and> readBuffer
       (fst (writeBuffer (replicate 20 (CHR 0x00)) (Int32Array (replicate 10 0))
        [String ''a'', String ''b'', String ''c'', String ''d'', String ''e'', String ''f'',
         String ''g'', String ''h'', String ''i'', String ''j'', String []]))
       (snd (writeBuffer (replicate 20 (CHR 0x00)) (Int32Array (replicate 10 0))
        [String ''a'', String ''b'', String ''c'', String ''d'', String ''e'', String ''f'',
         String ''g'', String ''h'', String ''i'', String ''j'', String []])) 11 ! 10 = Some []"
  by code_simp

section \<open>Lifecycle of the pool\<close>

lemma startWorkers_loop_workers:
  "workers (startWorkers_loop bytesize i st) = workers st @ replicate (cores st - i) new_worker
   \<and> cores (startWorkers_loop bytesize i st) = cores st
   \<and> availableWorkers (startWorkers_loop bytesize i st) = availableWorkers st"
proof (induction bytesize i st rule: startWorkers_loop.induct)
  case (1 bytesize i st)
  show ?case
  proof (cases "i < cores st")
    case True
    then have "cores st - i = Suc (cores st - (i + 1))" by simp
    with 1 [OF True] True show ?thesis
      by (subst startWorkers_loop.simps, subst (2) startWorkers_loop.simps,
          subst (3) startWorkers_loop.simps) (simp add: replicate_app_Cons_same)
  next
    case False
    then show ?thesis by (simp add: startWorkers_loop.simps)
  qed
qed

text \<open>
  C6. \<^verbatim>\<open>startWorkers\<close> while the pool is running (the list of workers is not empty)
  leaves the whole state as it is, and so does \<^verbatim>\<open>stopWorkers\<close> while the pool is stopped
  (it terminates no worker and returns nothing); hence a second start after a start and
  a second stop after a stop change nothing.
\<close>

theorem start_stop_idempotent:
  "(workers st \<noteq> [] \<longrightarrow> startWorkers bytesize st = st)
   \<and> (workers st = [] \<longrightarrow> stopWorkers callback st = (st, [], ReturnsUndefined))
   \<and> startWorkers bytesize' (startWorkers bytesize st) = startWorkers bytesize st
   \<and> stopWorkers callback' (fst (stopWorkers callback st)) =
       (fst (stopWorkers callback st), [], ReturnsUndefined)"
proof -
  have "startWorkers bytesize' (startWorkers bytesize st) = startWorkers bytesize st"
  proof (cases "workers st \<noteq> [] \<or> cores st = 0")
    case True
    then show ?thesis
      by (auto simp: startWorkers_def startWorkers_loop.simps)
  next
    case False
    then have "workers (startWorkers bytesize st) \<noteq> []"
      by (simp add: startWorkers_def startWorkers_loop_workers)
    then show ?thesis by (simp add: startWorkers_def [of bytesize'])
  qed
  then show ?thesis by (simp add: startWorkers_def stopWorkers_def)
qed

theorem start_stop_idempotent_witness:
  "workers (startWorkers 16 (initial 2)) \<noteq> []
   \<and> startWorkers 4096 (startWorkers 16 (initial 2)) = startWorkers 16 (initial 2)
   \<and> workers (initial 2) = []
   \<and> stopWorkers None (initial 2) = (initial 2, [], ReturnsUndefined)"
proof -
  have running: "workers (startWorkers 16 (initial 2)) \<noteq> []" by code_simp
  have stopped: "workers (initial 2) = []" by (simp add: initial_def)
  show ?thesis
    using start_stop_idempotent [where st = "startWorkers 16 (initial 2)" and bytesize = 4096]
      start_stop_idempotent [where st = "initial 2" and callback = None] running stopped
    by blast
qed

text \<open>
  C7, amended. When the pool is running, \<^verbatim>\<open>stopWorkers\<close> calls \<^verbatim>\<open>terminate()\<close> on every
  worker and empties the list of workers; the availability queue is left as it is, and
  while the pool is stopped \<^verbatim>\<open>getAvailableWorker\<close> hands out no index from it: it invokes
  its callback with \<^verbatim>\<open>null\<close> and does not touch the queue.
\<close>

theorem stopWorkers_clears_pool:
  assumes "workers st \<noteq> []"
  shows "fst (snd (stopWorkers callback st)) = workers st
       \<and> workers (fst (stopWorkers callback st)) = []
       \<and> availableWorkers (fst (stopWorkers callback st)) = availableWorkers st
       \<and> getAvailableWorker (fst (stopWorkers callback st)) attempts random =
           (Invoke Null_ref, fst (stopWorkers callback st))"
  using assms by (simp add: stopWorkers_def getAvailableWorker_def)

theorem stopWorkers_clears_pool_witness:
  "workers (startWorkers 16 (initial 2)) \<noteq> []
   \<and> workers (fst (stopWorkers None (startWorkers 16 (initial 2)))) = []
   \<and> getAvailableWorker (fst (stopWorkers None (startWorkers 16 (initial 2)))) 3 0 =
       (Invoke Null_ref, fst (stopWorkers None (startWorkers 16 (initial 2))))"
proof -
  have running: "workers (startWorkers 16 (initial 2)) \<noteq> []" by code_simp
  show ?thesis
    using stopWorkers_clears_pool [OF running, of None 3 0] running by blast
qed

text \<open>
  The claim as stated has the queue emptied by a stop: after a start and a stop on two
  cores both indices are still queued.
\<close>

theorem stopWorkers_clears_pool_counterexample:
  "workers (startWorkers 16 (initial 2)) \<noteq> []
   \<and> availableWorkers (fst (stopWorkers None (startWorkers 16 (initial 2)))) = [Some 0, Some 1]"
  by code_simp

section \<open>Release and acquisition at concrete inputs\<close>

text \<open>
  C1. A reply handler is to put its worker index back into the availability queue before
  it calls the callback. On three cores a verification is offloaded to worker 1 and
  answered: the callback is called with the result, and the queue, \<open>[2]\<close> before the
  reply, is \<open>[2, 0]\<close> after it, where the handler's
  \<^verbatim>\<open>availableWorkers[workerIndex] = 0\<close> has stored 0 at position 1; index 1 is not
  queued again. The same run with a signature ends with the queue \<open>[2, 1]\<close>.
\<close>

theorem verify_reply_does_not_release:
  "trace (run example_adapter 3
      [Start 64,
       Submit (VerifyRequest (String ''HS256'') (String ''key'') (String ''hdr.pay'')
                 (String ''c2ln'') 8) 0,
       TimerFires 0 0, WorkerRuns 1, ReplyArrives 1]) =
     [TimerSet 0, Callback 8 (Inr (Verified True))]
   \<and> availableWorkers (state (run example_adapter 3
      [Start 64,
       Submit (VerifyRequest (String ''HS256'') (String ''key'') (String ''hdr.pay'')
                 (String ''c2ln'') 8) 0,
       TimerFires 0 0, WorkerRuns 1, ReplyArrives 1])) = [Some 2, Some 0]
   \<and> trace (run example_adapter 3
      [Start 64,
       Submit (SignRequest (String ''HS256'') (String ''key'') (String ''hdr'')
                 (String ''pay'') 7) 0,
       TimerFires 0 0, WorkerRuns 1, ReplyArrives 1]) =
     [TimerSet 0, ConsoleLog (Index 1), Callback 7 (Inr (Signature ''c2ln''))]
   \<and> availableWorkers (state (run example_adapter 3
      [Start 64,
       Submit (SignRequest (String ''HS256'') (String ''key'') (String ''hdr'')
                 (String ''pay'') 7) 0,
       TimerFires 0 0, WorkerRuns 1, ReplyArrives 1])) = [Some 2, Some 1]"
  by code_simp

text \<open>
  With an index above 0 of a worker whose regions exist, either callback frames the five
  fields in the agreed order into that worker's request region, installs its reply
  handler on that worker and posts one notification to it; nothing runs in the calling
  thread.
\<close>

lemma usable_index_is_offloaded:
  assumes "0 < k" and "k < length (workers st)"
    and "js_index (requestsSharedBuffers st) k = Some requestBuffer"
    and "js_index (repliesSharedBuffers st) k = Some replyBuffer"
    and "js_index (requestsSizesArray st) k = Some requestSizes"
  shows "createSignatureWithWorker_callback env algorithm secret header payload callback
           (Index k) st =
         (st\<lparr>requestsSharedBuffers :=
               js_store (requestsSharedBuffers st) k
                 (fst (writeBuffer requestBuffer requestSizes
                         [String ''sign'', algorithm, secret, header, payload])),
             requestsSizesArray :=
               js_store (requestsSizesArray st) k
                 (snd (writeBuffer requestBuffer requestSizes
                         [String ''sign'', algorithm, secret, header, payload])),
             workers := (workers st)[k := (workers st ! k)
               \<lparr>listener := Some (SignReply k callback),
                inbox := inbox (workers st ! k) + 1\<rparr>]\<rparr>,
          [ConsoleLog (Index k)])"
    and "verifySignatureWithWorker_callback env algorithm secret input signature callback
           (Index k) st =
         (st\<lparr>requestsSharedBuffers :=
               js_store (requestsSharedBuffers st) k
                 (fst (writeBuffer requestBuffer requestSizes
                         [String ''verify'', algorithm, secret, input, signature])),
             requestsSizesArray :=
               js_store (requestsSizesArray st) k
                 (snd (writeBuffer requestBuffer requestSizes
                         [String ''verify'', algorithm, secret, input, signature])),
             workers := (workers st)[k := (workers st ! k)
               \<lparr>listener := Some (VerifyReply k callback),
                inbox := inbox (workers st ! k) + 1\<rparr>]\<rparr>,
          [])"
  using assms
  by (simp_all add: createSignatureWithWorker_callback_def
        verifySignatureWithWorker_callback_def offload_def Let_def)

text \<open>
  C4. Every index the queue hands out, index 0 included, is to be used for an offloaded
  request. With one core the queue holds index 0 alone. Handed to either callback, index
  0 makes it run the operation in the calling thread and leave the pool as it is
  (\<^verbatim>\<open>!workerIndex\<close> holds for 0); and \<^verbatim>\<open>getAvailableWorker\<close> itself, while attempts are
  left, drops the index 0 it has taken from the queue and retries, so that the request
  ends in the calling thread and worker 0 is never notified.
\<close>

theorem index_zero_is_not_offloaded:
  "getAvailableWorker (startWorkers 64 (initial 1)) 0 0 =
     (Invoke (Index 0), (startWorkers 64 (initial 1))\<lparr>availableWorkers := []\<rparr>)
   \<and> createSignatureWithWorker_callback example_adapter (String ''HS256'') (String ''key'')
       (String ''hdr'') (String ''pay'') 7 (Index 0)
       ((startWorkers 64 (initial 1))\<lparr>availableWorkers := []\<rparr>) =
     ((startWorkers 64 (initial 1))\<lparr>availableWorkers := []\<rparr>,
      [ConsoleLog (Index 0), Callback 7 (Inr (Signature ''c2ln''))])
   \<and> verifySignatureWithWorker_callback example_adapter (String ''HS256'') (String ''key'')
       (String ''hdr.pay'') (String ''c2ln'') 8 (Index 0)
       ((startWorkers 64 (initial 1))\<lparr>availableWorkers := []\<rparr>) =
     ((startWorkers 64 (initial 1))\<lparr>availableWorkers := []\<rparr>,
      [Callback 8 (Inr (Verified True))])
   \<and> trace (run example_adapter 1
       [Start 64,
        Submit (SignRequest (String ''HS256'') (String ''key'') (String ''hdr'')
                  (String ''pay'') 7) 0,
        TimerFires 0 0, TimerFires 0 0, TimerFires 0 0]) =
     [TimerSet 0, TimerSet 0, TimerSet 0, ConsoleLog Undefined_ref,
      Callback 7 (Inr (Signature ''c2ln''))]
   \<and> map inbox (workers (state (run example_adapter 1
       [Start 64,
        Submit (SignRequest (String ''HS256'') (String ''key'') (String ''hdr'')
                  (String ''pay'') 7) 0,
        TimerFires 0 0, TimerFires 0 0, TimerFires 0 0]))) = [0]"
  by code_simp

section \<open>Acquisition and fallback\<close>

lemma binade_up_spec:
  "2 powi e \<le> x \<Longrightarrow>
   e \<le> binade_up n e x \<and> 2 powi (binade_up n e x) \<le> x
   \<and> (x < 2 powi (binade_up n e x + 1) \<or> binade_up n e x = e + int n)"
proof (induction n arbitrary: e)
  case 0
  then show ?case by simp
next
  case (Suc n)
  show ?case
  proof (cases "x < 2 powi (e + 1)")
    case True
    with Suc.prems show ?thesis by simp
  next
    case False
    then have "2 powi (e + 1) \<le> x" by simp
    from Suc.IH [OF this] False show ?thesis by auto
  qed
qed

lemma binade_down_spec:
  "x < 2 powi (e + 1) \<Longrightarrow>
   binade_down n e x \<le> e \<and> x < 2 powi (binade_down n e x + 1)"
proof (induction n arbitrary: e)
  case 0
  then show ?case by simp
next
  case (Suc n)
  show ?case
  proof (cases "2 powi e \<le> x")
    case True
    with Suc.prems show ?thesis by simp
  next
    case False
    then have "x < 2 powi (e - 1 + 1)" by simp
    from Suc.IH [OF this] False show ?thesis by auto
  qed
qed

lemma binade_below_16:
  assumes "0 \<le> x" and "x < 16"
  shows "binade x \<le> 3 \<and> x < 2 powi (binade x + 1) \<and> (binade x = 3 \<longrightarrow> 8 \<le> x)"
proof (cases "1 \<le> x")
  case True
  then have "2 powi 0 \<le> x" by simp
  from binade_up_spec [OF this, of 1023]
  have lo: "2 powi (binade_up 1023 0 x) \<le> x" and ge: "0 \<le> binade_up 1023 0 x"
    and hi: "x < 2 powi (binade_up 1023 0 x + 1) \<or> binade_up 1023 0 x = 1023" by auto
  have "2 powi (binade_up 1023 0 x) < (2::rat) powi 4" using lo assms(2) by simp
  then have le3: "binade_up 1023 0 x < 4"
    by (rule power_int_le_imp_less_exp [rotated]) simp_all
  with hi have "x < 2 powi (binade_up 1023 0 x + 1)" by auto
  moreover have "8 \<le> x" if "binade_up 1023 0 x = 3" using lo that by simp
  ultimately show ?thesis using True le3 by (simp add: binade_def)
next
  case False
  then have "x < 2 powi (- 1 + 1)" by simp
  from binade_down_spec [OF this, of 1021] False show ?thesis by (simp add: binade_def)
qed

lemma round_even_le: "y \<le> of_int N \<Longrightarrow> round_even y \<le> N"
proof -
  assume y: "y \<le> of_int N"
  then have f: "\<lfloor>y\<rfloor> \<le> N" by (simp add: floor_le_iff)
  show ?thesis
  proof (cases "\<lfloor>y\<rfloor> = N")
    case True
    then have "of_int N \<le> y" by (metis of_int_floor_le)
    with y have "y = of_int N" by simp
    then show ?thesis by (simp add: round_even_def)
  next
    case False
    with f have "\<lfloor>y\<rfloor> + 1 \<le> N" by simp
    then show ?thesis unfolding round_even_def by auto
  qed
qed

lemma round_even_less: "y < of_int N - 1 / 2 \<Longrightarrow> round_even y \<le> N - 1"
proof -
  assume y: "y < of_int N - 1 / 2"
  then have "y < of_int N" by simp
  then have f: "\<lfloor>y\<rfloor> \<le> N - 1" by (simp add: floor_less_iff)
  show ?thesis
  proof (cases "\<lfloor>y\<rfloor> = N - 1")
    case True
    then have "y - of_int \<lfloor>y\<rfloor> < 1 / 2" using y by simp
    then show ?thesis using True by (simp add: round_even_def)
  next
    case False
    with f have "\<lfloor>y\<rfloor> + 1 \<le> N - 1" by simp
    then show ?thesis unfolding round_even_def by auto
  qed
qed

lemma product_below_ten:
  assumes "0 \<le> r" and "r \<le> 1 - 1 / 2 ^ 53"
  shows "double_round (r * 10) < 10"
proof (cases "r = 0")
  case True
  then show ?thesis by (simp add: double_round_def)
next
  case False
  let ?x = "r * 10"
  let ?e = "binade ?x"
  let ?u = "(2::rat) powi (?e - 52)"
  have x0: "0 \<le> ?x" and x16: "?x < 16" using assms by simp_all
  from binade_below_16 [OF x0 x16]
  have e3: "?e \<le> 3" and hi: "?x < 2 powi (?e + 1)" and lo: "?e = 3 \<longrightarrow> 8 \<le> ?x" by auto
  have u: "0 < ?u" by (simp add: zero_less_power_int)
  have dr: "double_round ?x = ?u * of_int (round_even (?x / ?u))"
    using False by (simp add: double_round_def)
  show ?thesis
  proof (cases "?e = 3")
    case True
    have uval: "?u = 1 / 2 ^ 49" using True by (simp add: power_int_minus_divide)
    have "?x \<le> 10 - 10 / 2 ^ 53" using assms(2) by simp
    then have "?x / ?u \<le> 10 * 2 ^ 49 - 10 / 16" unfolding uval by simp
    then have "?x / ?u < of_int (10 * 2 ^ 49) - 1 / 2" by simp
    then have "round_even (?x / ?u) \<le> 10 * 2 ^ 49 - 1" by (rule round_even_less)
    then have "(of_int (round_even (?x / ?u)) :: rat) \<le> of_int (10 * 2 ^ 49 - 1)"
      by (simp only: of_int_le_iff)
    then have "(of_int (round_even (?x / ?u)) :: rat) \<le> 10 * 2 ^ 49 - 1"
      by simp
    then have "?u * of_int (round_even (?x / ?u)) \<le> (1 / 2 ^ 49) * (10 * 2 ^ 49 - 1)"
      unfolding uval by (intro mult_left_mono) simp_all
    also have "\<dots> < 10" by simp
    finally show ?thesis using dr by simp
  next
    case False
    with e3 have e2: "?e \<le> 2" by simp
    have "?x / ?u < 2 powi (?e + 1) / ?u" using hi u by (simp add: divide_strict_right_mono)
    also have "\<dots> = 2 powi 53" by (simp add: power_int_diff [symmetric])
    finally have "?x / ?u \<le> of_int (2 ^ 53)" by simp
    then have "round_even (?x / ?u) \<le> 2 ^ 53" by (rule round_even_le)
    then have "(of_int (round_even (?x / ?u)) :: rat) \<le> of_int (2 ^ 53)"
      by (simp only: of_int_le_iff)
    then have "(of_int (round_even (?x / ?u)) :: rat) \<le> 2 ^ 53"
      by simp
    then have "?u * of_int (round_even (?x / ?u)) \<le> ?u * 2 ^ 53"
      using u by (intro mult_left_mono) simp_all
    also have "\<dots> = 2 powi (?e + 1)"
      by (simp add: power_int_add [symmetric] add.commute flip: power_int_numeral)
    also have "\<dots> \<le> 2 powi 3" using e2 by (intro power_int_increasing) simp_all
    finally show ?thesis using dr by simp
  qed
qed

lemma delay_small:
  fixes r :: rat
  assumes "0 \<le> r" and "r \<le> 1 - 1 / 2 ^ 53"
  shows "nat \<lfloor>double_round (r * 10)\<rfloor> < 10"
proof -
  have "double_round (r * 10) < 10" using assms by (rule product_below_ten)
  then have "\<lfloor>double_round (r * 10)\<rfloor> < 10" by (simp add: floor_less_iff)
  then show ?thesis by linarith
qed

lemma next_random_unit:
  assumes "\<forall>g \<in> set sched. 0 \<le> fst g \<and> fst g \<le> 1 - 1 / 2 ^ 53"
  shows "0 \<le> next_random (drop j sched) \<and> next_random (drop j sched) \<le> 1 - 1 / 2 ^ 53"
proof (cases "drop j sched")
  case Nil
  then show ?thesis by simp
next
  case (Cons g gs)
  then have "g \<in> set (drop j sched)" by simp
  then have "g \<in> set sched" by (rule in_set_dropD)
  with assms Cons show ?thesis by simp
qed

lemma backoff_small:
  assumes "\<forall>g \<in> set sched. 0 \<le> fst g \<and> fst g \<le> 1 - 1 / 2 ^ 53"
  shows "\<forall>d \<in> set (backoff sched n). d < 10"
  using next_random_unit [OF assms] delay_small by (auto simp: backoff_def)

lemma backoff_Suc:
  "backoff sched (Suc n) =
     nat \<lfloor>double_round (next_random sched * 10)\<rfloor> # backoff (tl sched) n"
proof -
  have "[0..<Suc n] = 0 # map Suc [0..<n]"
    by (simp add: upt_conv_Cons map_Suc_upt del: upt_Suc)
  then show ?thesis by (simp add: backoff_def drop_Suc comp_def del: upt_Suc)
qed

lemma shift_head: "fst (shift q) = head_ref q \<and> snd (shift q) = tl q"
  by (cases q rule: shift.cases) (simp_all add: head_ref_def)

lemma falsy_head: "falsy (head_ref q) = (\<not> head_usable q)"
  by (cases q rule: shift.cases) (simp_all add: head_ref_def head_usable_def)

lemma getAvailableWorker_cases:
  obtains
    (stopped) "workers st = []" "getAvailableWorker st attempts random = (Invoke Null_ref, st)"
  | (retry) "workers st \<noteq> []" "\<not> head_usable (availableWorkers st)" "0 < attempts"
      "getAvailableWorker st attempts random =
         (SetTimeout (nat \<lfloor>double_round (random * 10)\<rfloor>) (attempts - 1),
          st\<lparr>availableWorkers := tl (availableWorkers st)\<rparr>)"
  | (invoke) "workers st \<noteq> []" "head_usable (availableWorkers st) \<or> attempts \<le> 0"
      "getAvailableWorker st attempts random =
         (Invoke (head_ref (availableWorkers st)),
          st\<lparr>availableWorkers := tl (availableWorkers st)\<rparr>)"
  by (cases "workers st = []"; cases "\<not> head_usable (availableWorkers st) \<and> 0 < attempts")
     (auto simp: getAvailableWorker_def Let_def shift_head falsy_head)

lemma getAvailableWorker_run_factors:
  "\<exists>n worker st'.
     (\<forall>callback. getAvailableWorker_run callback sched st attempts =
        (fst (callback worker st'), map TimerSet (backoff sched n) @ snd (callback worker st')))
     \<and> n \<le> nat attempts
     \<and> (\<forall>j < n. workers (waited sched st j) \<noteq> []
                 \<and> \<not> head_usable (availableWorkers (waited sched st j)))
     \<and> (workers (waited sched st n) = [] \<or> head_usable (availableWorkers (waited sched st n))
         \<or> n = nat attempts)
     \<and> (if workers (waited sched st n) = [] then worker = Null_ref \<and> st' = waited sched st n
         else worker = head_ref (availableWorkers (waited sched st n))
            \<and> st' = (waited sched st n)
                     \<lparr>availableWorkers := tl (availableWorkers (waited sched st n))\<rparr>)"
proof (induction "nat attempts" arbitrary: sched st attempts)
  case 0
  then have le: "attempts \<le> 0" by simp
  show ?case
  proof (cases rule: getAvailableWorker_cases [where st = st and attempts = attempts
      and random = "next_random sched"])
    case stopped
    then have "\<forall>callback. getAvailableWorker_run callback sched st attempts =
                 (fst (callback Null_ref st),
                  map TimerSet (backoff sched 0) @ snd (callback Null_ref st))"
      by (simp add: getAvailableWorker_run.simps backoff_def)
    with stopped show ?thesis
      by (intro exI [of _ 0] exI [of _ Null_ref] exI [of _ st]) simp
  next
    case retry
    with le show ?thesis by simp
  next
    case invoke
    let ?w = "head_ref (availableWorkers st)"
    let ?st = "st\<lparr>availableWorkers := tl (availableWorkers st)\<rparr>"
    from invoke have "\<forall>callback. getAvailableWorker_run callback sched st attempts =
                 (fst (callback ?w ?st), map TimerSet (backoff sched 0) @ snd (callback ?w ?st))"
      by (simp add: getAvailableWorker_run.simps backoff_def)
    with invoke le show ?thesis
      by (intro exI [of _ 0] exI [of _ ?w] exI [of _ ?st]) simp
  qed
next
  case (Suc m)
  then have pos: "0 < attempts" and m: "m = nat (attempts - 1)" by simp_all
  show ?case
  proof (cases rule: getAvailableWorker_cases [where st = st and attempts = attempts
      and random = "next_random sched"])
    case stopped
    then have "\<forall>callback. getAvailableWorker_run callback sched st attempts =
                 (fst (callback Null_ref st),
                  map TimerSet (backoff sched 0) @ snd (callback Null_ref st))"
      by (simp add: getAvailableWorker_run.simps backoff_def)
    with stopped show ?thesis
      by (intro exI [of _ 0] exI [of _ Null_ref] exI [of _ st]) simp
  next
    case invoke
    let ?w = "head_ref (availableWorkers st)"
    let ?st = "st\<lparr>availableWorkers := tl (availableWorkers st)\<rparr>"
    from invoke have "\<forall>callback. getAvailableWorker_run callback sched st attempts =
                 (fst (callback ?w ?st), map TimerSet (backoff sched 0) @ snd (callback ?w ?st))"
      by (simp add: getAvailableWorker_run.simps backoff_def)
    with invoke pos show ?thesis
      by (intro exI [of _ 0] exI [of _ ?w] exI [of _ ?st]) simp
  next
    case retry
    let ?st = "meanwhile sched (st\<lparr>availableWorkers := tl (availableWorkers st)\<rparr>)"
    from Suc.hyps(1) [OF m, of "tl sched" ?st]
    obtain n worker st' where
      run: "\<And>callback. getAvailableWorker_run callback (tl sched) ?st (attempts - 1) =
              (fst (callback worker st'),
               map TimerSet (backoff (tl sched) n) @ snd (callback worker st'))"
      and len: "n \<le> nat (attempts - 1)"
      and before: "\<forall>j < n. workers (waited (tl sched) ?st j) \<noteq> []
                 \<and> \<not> head_usable (availableWorkers (waited (tl sched) ?st j))"
      and stop: "workers (waited (tl sched) ?st n) = []
                 \<or> head_usable (availableWorkers (waited (tl sched) ?st n))
                 \<or> n = nat (attempts - 1)"
      and final: "if workers (waited (tl sched) ?st n) = []
         then worker = Null_ref \<and> st' = waited (tl sched) ?st n
         else worker = head_ref (availableWorkers (waited (tl sched) ?st n))
            \<and> st' = (waited (tl sched) ?st n)
                     \<lparr>availableWorkers := tl (availableWorkers (waited (tl sched) ?st n))\<rparr>"
      by blast
    have w: "waited sched st (Suc j) = waited (tl sched) ?st j" for j by simp
    have "\<forall>callback. getAvailableWorker_run callback sched st attempts =
            (fst (callback worker st'),
             map TimerSet (backoff sched (Suc n)) @ snd (callback worker st'))"
      using retry(4) run by (subst getAvailableWorker_run.simps) (simp add: backoff_Suc)
    moreover have "Suc n \<le> nat attempts" using len pos by simp
    moreover have "\<forall>j < Suc n. workers (waited sched st j) \<noteq> []
                 \<and> \<not> head_usable (availableWorkers (waited sched st j))"
    proof (intro allI impI)
      fix j assume "j < Suc n"
      then show "workers (waited sched st j) \<noteq> []
                 \<and> \<not> head_usable (availableWorkers (waited sched st j))"
        using retry(1,2) before by (cases j) (simp_all del: waited.simps(2) add: w)
    qed
    moreover have "workers (waited sched st (Suc n)) = []
                 \<or> head_usable (availableWorkers (waited sched st (Suc n)))
                 \<or> Suc n = nat attempts"
      using stop pos unfolding w by auto
    moreover have "if workers (waited sched st (Suc n)) = []
         then worker = Null_ref \<and> st' = waited sched st (Suc n)
         else worker = head_ref (availableWorkers (waited sched st (Suc n)))
            \<and> st' = (waited sched st (Suc n))
                     \<lparr>availableWorkers := tl (availableWorkers (waited sched st (Suc n)))\<rparr>"
      using final unfolding w .
    ultimately show ?thesis
      by (intro exI [of _ "Suc n"] exI [of _ worker] exI [of _ st']) blast
  qed
qed

lemma callbacks_timers: "callbacks (map TimerSet delays @ out) = callbacks out"
  by (induction delays) (simp_all add: callbacks_def)

lemma acquired_run:
  assumes "\<forall>callback. getAvailableWorker_run callback sched st attempts =
             (fst (callback worker st'), map TimerSet delays @ snd (callback worker st'))"
  shows "acquired sched st attempts = [worker]"
proof -
  have "[w. Invoked w \<leftarrow> map TimerSet delays @ out] = [w. Invoked w \<leftarrow> out]" for out
    by (induction delays) simp_all
  then show ?thesis using assms by (simp add: acquired_def)
qed

text \<open>
  C8. A call of \<^verbatim>\<open>getAvailableWorker\<close> returns, whatever the rest of the program does to
  the pool while its timers wait, and invokes its callback exactly once: for every
  callback the run is \<open>n\<close> timers followed by the one call, with \<open>n\<close> at most \<open>attempts\<close>.
  Each timer's delay is \<^verbatim>\<open>Math.floor\<close> of ten times the random number drawn and is below
  10. Every one of the \<open>n\<close> attempts that set a timer found workers and, at the head of
  the queue, no index a request can be offloaded to (an empty queue, a hole or index 0),
  and took that head off the queue. The attempt that invokes the callback either finds no
  worker, and then passes \<^verbatim>\<open>null\<close> and leaves the queue as it is; or it takes the head off
  the queue and passes it on, and that head is an index above 0 unless all \<open>attempts\<close>
  timers have been used.
\<close>

theorem getAvailableWorker_invokes_callback_once:
  assumes "\<forall>g \<in> set sched. 0 \<le> fst g \<and> fst g \<le> 1 - 1 / 2 ^ 53"
  shows "\<exists>n worker st'.
     (\<forall>callback. getAvailableWorker_run callback sched st attempts =
        (fst (callback worker st'), map TimerSet (backoff sched n) @ snd (callback worker st')))
     \<and> n \<le> nat attempts
     \<and> (\<forall>d \<in> set (backoff sched n). d < 10)
     \<and> (\<forall>j < n. workers (waited sched st j) \<noteq> []
                 \<and> \<not> head_usable (availableWorkers (waited sched st j)))
     \<and> (workers (waited sched st n) = [] \<or> head_usable (availableWorkers (waited sched st n))
         \<or> n = nat attempts)
     \<and> (if workers (waited sched st n) = [] then worker = Null_ref \<and> st' = waited sched st n
         else worker = head_ref (availableWorkers (waited sched st n))
            \<and> st' = (waited sched st n)
                     \<lparr>availableWorkers := tl (availableWorkers (waited sched st n))\<rparr>)"
  using getAvailableWorker_run_factors [of sched st attempts] backoff_small [OF assms] by blast

theorem getAvailableWorker_invokes_callback_once_witness:
  "0 \<le> (6305039478318694 / 2 ^ 53 :: rat) \<and> (6305039478318694 / 2 ^ 53 :: rat) \<le> 1 - 1 / 2 ^ 53
   \<and> 0 \<le> (1 / 2 :: rat) \<and> (1 / 2 :: rat) \<le> 1 - 1 / 2 ^ 53
   \<and> (\<exists>n worker st'.
     (\<forall>callback. getAvailableWorker_run callback
          [(6305039478318694 / 2 ^ 53, id), (1 / 2, id)] (startWorkers 16 (initial 3)) 3 =
        (fst (callback worker st'),
         map TimerSet (backoff [(6305039478318694 / 2 ^ 53, id), (1 / 2, id)] n)
           @ snd (callback worker st')))
     \<and> n \<le> nat 3
     \<and> (\<forall>d \<in> set (backoff [(6305039478318694 / 2 ^ 53, id), (1 / 2, id)] n). d < 10))
   \<and> getAvailableWorker_run (\<lambda>w st. (st, [Invoked w]))
          [(6305039478318694 / 2 ^ 53, id), (1 / 2, id)] (startWorkers 16 (initial 3)) 3 =
       ((startWorkers 16 (initial 3))\<lparr>availableWorkers := [Some 2]\<rparr>,
        [TimerSet 7, Invoked (Index 1)])
   \<and> snd (getAvailableWorker_run (\<lambda>w st. (st, [Invoked w])) [(1 / 2, id), (1 / 4, id), (0, id)]
          (startWorkers 16 (initial 1)) 3) =
       [TimerSet 5, TimerSet 2, TimerSet 0, Invoked Undefined_ref]"
proof -
  have unit: "\<forall>g \<in> set [(6305039478318694 / 2 ^ 53, id), (1 / 2, id)].
                0 \<le> fst g \<and> fst g \<le> (1 - 1 / 2 ^ 53 :: rat)"
    by simp
  have run: "getAvailableWorker_run (\<lambda>w st. (st, [Invoked w]))
          [(6305039478318694 / 2 ^ 53, id), (1 / 2, id)] (startWorkers 16 (initial 3)) 3 =
       ((startWorkers 16 (initial 3))\<lparr>availableWorkers := [Some 2]\<rparr>,
        [TimerSet 7, Invoked (Index 1)])"
    by code_simp
  have run': "snd (getAvailableWorker_run (\<lambda>w st. (st, [Invoked w]))
          [(1 / 2, id), (1 / 4, id), (0, id)] (startWorkers 16 (initial 1)) 3) =
       [TimerSet 5, TimerSet 2, TimerSet 0, Invoked Undefined_ref]"
    by code_simp
  have small: "0 \<le> (6305039478318694 / 2 ^ 53 :: rat)
     \<and> (6305039478318694 / 2 ^ 53 :: rat) \<le> 1 - 1 / 2 ^ 53
     \<and> 0 \<le> (1 / 2 :: rat) \<and> (1 / 2 :: rat) \<le> 1 - 1 / 2 ^ 53"
    by simp
  have once: "\<exists>n worker st'.
     (\<forall>callback. getAvailableWorker_run callback
          [(6305039478318694 / 2 ^ 53, id), (1 / 2, id)] (startWorkers 16 (initial 3)) 3 =
        (fst (callback worker st'),
         map TimerSet (backoff [(6305039478318694 / 2 ^ 53, id), (1 / 2, id)] n)
           @ snd (callback worker st')))
     \<and> n \<le> nat 3
     \<and> (\<forall>d \<in> set (backoff [(6305039478318694 / 2 ^ 53, id), (1 / 2, id)] n). d < 10)"
    using getAvailableWorker_invokes_callback_once [OF unit, of "startWorkers 16 (initial 3)" 3]
    by blast
  from small once run run' show ?thesis by blast
qed

text \<open>
  C2. When the pool has no workers, or the acquisition ends with \<^verbatim>\<open>undefined\<close> because
  no index was in the queue on the last attempt, \<^verbatim>\<open>createSignatureWithWorker\<close> and
  \<^verbatim>\<open>verifySignatureWithWorker\<close> call the caller's callback exactly once, with exactly the
  result or the error of \<^verbatim>\<open>createSignature\<close> or \<^verbatim>\<open>verifySignature\<close> on the caller's own
  arguments; nothing is thrown, and the callback's body leaves the pool as the
  acquisition left it.
\<close>

theorem fallback_runs_in_process:
  assumes "workers st = [] \<or> acquired sched st 3 = [Undefined_ref]"
  shows "callbacks (snd (createSignatureWithWorker env sched algorithm secret header payload
                           callback st)) =
           [(callback, case createSignature env algorithm secret header payload of
                         Inl e \<Rightarrow> Inl e | Inr rv \<Rightarrow> Inr (Signature rv))]
       \<and> UncaughtTypeError \<notin> set (snd (createSignatureWithWorker env sched algorithm secret
                                          header payload callback st))
       \<and> fst (createSignatureWithWorker env sched algorithm secret header payload callback st) =
           fst (getAvailableWorker_run (\<lambda>w st'. (st', [])) sched st 3)
       \<and> callbacks (snd (verifySignatureWithWorker env sched algorithm secret input signature
                           callback st)) =
           [(callback, case verifySignature env algorithm secret input signature of
                         Inl e \<Rightarrow> Inl e | Inr rv \<Rightarrow> Inr (Verified rv))]
       \<and> UncaughtTypeError \<notin> set (snd (verifySignatureWithWorker env sched algorithm secret
                                          input signature callback st))
       \<and> fst (verifySignatureWithWorker env sched algorithm secret input signature callback st) =
           fst (getAvailableWorker_run (\<lambda>w st'. (st', [])) sched st 3)"
proof -
  obtain n worker st' where
    run: "\<And>callback. getAvailableWorker_run callback sched st 3 =
            (fst (callback worker st'), map TimerSet (backoff sched n) @ snd (callback worker st'))"
    and before: "\<forall>j < n. workers (waited sched st j) \<noteq> []
                 \<and> \<not> head_usable (availableWorkers (waited sched st j))"
    and final: "if workers (waited sched st n) = [] then worker = Null_ref \<and> st' = waited sched st n
         else worker = head_ref (availableWorkers (waited sched st n))
            \<and> st' = (waited sched st n)
                     \<lparr>availableWorkers := tl (availableWorkers (waited sched st n))\<rparr>"
    using getAvailableWorker_run_factors [of sched st 3] by blast
  have "acquired sched st 3 = [worker]" using run by (intro acquired_run) blast
  moreover have "worker = Null_ref" if "workers st = []"
  proof -
    have "n = 0" using before that by (cases n) auto
    with final that show ?thesis by simp
  qed
  ultimately have w: "falsy worker" using assms by auto
  have timers: "UncaughtTypeError \<notin> set (map TimerSet (backoff sched n))" by auto
  show ?thesis
    using w timers
    by (simp add: createSignatureWithWorker_def verifySignatureWithWorker_def run
          createSignatureWithWorker_callback_def verifySignatureWithWorker_callback_def
          callbacks_timers)
       (simp add: callbacks_def)
qed

theorem fallback_runs_in_process_witness:
  "workers (initial 2) = []
   \<and> callbacks (snd (createSignatureWithWorker example_adapter [] (String ''HS256'')
        (String ''key'') (String ''hdr'') (String ''pay'') 7 (initial 2))) =
       [(7, Inr (Signature ''c2ln''))]
   \<and> acquired [] ((startWorkers 64 (initial 2))\<lparr>availableWorkers := []\<rparr>) 3 = [Undefined_ref]
   \<and> callbacks (snd (verifySignatureWithWorker example_adapter [] (String ''HS256'')
        (String ''key'') (String ''hdr.pay'') (String ''c2ln'') 8
        ((startWorkers 64 (initial 2))\<lparr>availableWorkers := []\<rparr>))) =
       [(8, Inr (Verified True))]"
proof -
  have stopped: "workers (initial 2) = []" by (simp add: initial_def)
  have busy: "acquired [] ((startWorkers 64 (initial 2))\<lparr>availableWorkers := []\<rparr>) 3 =
                [Undefined_ref]"
    by code_simp
  have sign: "(case createSignature example_adapter (String ''HS256'') (String ''key'')
                 (String ''hdr'') (String ''pay'') of
                 Inl e \<Rightarrow> Inl e | Inr rv \<Rightarrow> Inr (Signature rv)) = Inr (Signature ''c2ln'')"
    by (simp add: example_adapter_def)
  have verify: "(case verifySignature example_adapter (String ''HS256'') (String ''key'')
                 (String ''hdr.pay'') (String ''c2ln'') of
                 Inl e \<Rightarrow> Inl e | Inr rv \<Rightarrow> Inr (Verified rv)) = Inr (Verified True)"
    by (simp add: example_adapter_def)
  show ?thesis
    using fallback_runs_in_process [where st = "initial 2" and env = example_adapter
        and sched = "[]" and algorithm = "String ''HS256''" and secret = "String ''key''"
        and header = "String ''hdr''" and payload = "String ''pay''" and callback = 7]
      fallback_runs_in_process [where st = "(startWorkers 64 (initial 2))\<lparr>availableWorkers := []\<rparr>"
        and env = example_adapter
        and sched = "[]" and algorithm = "String ''HS256''" and secret = "String ''key''"
        and input = "String ''hdr.pay''" and signature = "String ''c2ln''" and callback = 8]
      stopped busy sign verify
    by simp
qed

section \<open>One operation per worker\<close>

lemma count_list_upt: "count_list (map Some [0..<c]) (Some i) = (if i < c then 1 else 0)"
  by (induction c) auto

lemma held_Nil: "held [] i = 0"
  by (simp add: held_def)

lemma held_Cons: "held (r # rs) i = (if slot r = i then in_flight (thread r) else 0) + held rs i"
  by (simp add: held_def)

lemma held_append: "held (rs @ rs') i = held rs i + held rs' i"
  by (simp add: held_def)

lemma held_retire:
  "held (retire st n ws) i = (if n \<le> i \<and> i < n + length ws then in_flight (ws ! (i - n)) else 0)"
proof (induction ws arbitrary: n)
  case Nil
  then show ?case by (simp add: held_Nil)
next
  case (Cons w ws)
  show ?case
  proof (cases "i = n")
    case True
    with Cons.IH [of "Suc n"] show ?thesis by (simp add: held_Cons)
  next
    case False
    with Cons.IH [of "Suc n"] show ?thesis by (auto simp: held_Cons Suc_diff_le nth_Cons')
  qed
qed

lemma retire_set:
  "r \<in> set (retire st n ws) \<Longrightarrow> \<exists>j < length ws. slot r = n + j \<and> thread r = ws ! j"
proof (induction ws arbitrary: n)
  case Nil
  then show ?case by simp
next
  case (Cons w ws)
  from Cons.prems consider "slot r = n" "thread r = w" | "r \<in> set (retire st (Suc n) ws)"
    by auto
  then show ?case
  proof cases
    case 1
    then show ?thesis by (intro exI [of _ 0]) simp
  next
    case 2
    from Cons.IH [OF this] obtain j where "j < length ws" "slot r = Suc n + j" "thread r = ws ! j"
      by blast
    then show ?thesis by (intro exI [of _ "Suc j"]) simp
  qed
qed

lemma held_map_replaced: "held (map (\<lambda>r. r\<lparr>replaced := f r\<rparr>) rs) i = held rs i"
  by (induction rs) (simp_all add: held_Nil held_Cons)

lemma held_update:
  "k < length rs \<Longrightarrow> slot r' = slot (rs ! k) \<Longrightarrow>
   held (rs[k := r']) i + (if i = slot (rs ! k) then in_flight (thread (rs ! k)) else 0) =
   held rs i + (if i = slot (rs ! k) then in_flight (thread r') else 0)"
proof (induction rs arbitrary: k)
  case Nil
  then show ?case by simp
next
  case (Cons r rs)
  show ?case
  proof (cases k)
    case 0
    with Cons.prems show ?thesis by (auto simp: held_Cons)
  next
    case (Suc k')
    with Cons.prems Cons.IH [of k'] show ?thesis by (auto simp: held_Cons)
  qed
qed

lemma excl_shrink:
  assumes "excl h q ws" and "\<And>i. 0 < i \<Longrightarrow> count_list q' (Some i) \<le> count_list q (Some i)"
  shows "excl h q' ws"
  unfolding excl_def
proof (intro conjI allI impI)
  fix i :: nat assume i: "0 < i"
  with assms(1) have
    "count_list q (Some i) + (if i < length ws then in_flight (ws ! i) else 0) + h i \<le> 1"
    unfolding excl_def by blast
  with assms(2) [OF i]
  show "count_list q' (Some i) + (if i < length ws then in_flight (ws ! i) else 0) + h i \<le> 1"
    by linarith
qed (use assms(1) in \<open>auto simp: excl_def\<close>)

lemma excl_fewer:
  assumes "excl h q ws" and "\<And>i. h' i \<le> h i"
  shows "excl h' q ws"
  unfolding excl_def
proof (intro conjI allI impI)
  fix i :: nat assume i: "0 < i"
  with assms(1) have
    "count_list q (Some i) + (if i < length ws then in_flight (ws ! i) else 0) + h i \<le> 1"
    unfolding excl_def by blast
  with assms(2) [of i]
  show "count_list q (Some i) + (if i < length ws then in_flight (ws ! i) else 0) + h' i \<le> 1"
    by linarith
next
  show "h' 0 = 0" using assms(1) assms(2) [of 0] unfolding excl_def by simp
qed (use assms(1) in \<open>auto simp: excl_def\<close>)

lemma excl_new_workers:
  assumes "excl h q ws"
  shows "excl h q (replicate n new_worker)"
  unfolding excl_def
proof (intro conjI allI impI)
  fix i :: nat assume "0 < i"
  with assms have
    "count_list q (Some i) + (if i < length ws then in_flight (ws ! i) else 0) + h i \<le> 1"
    unfolding excl_def by blast
  then show "count_list q (Some i) +
       (if i < length (replicate n new_worker) then in_flight (replicate n new_worker ! i) else 0)
       + h i \<le> 1"
    by (simp add: in_flight_def new_worker_def)
next
  show "h 0 = 0" using assms unfolding excl_def by simp
qed (simp_all add: in_flight_def new_worker_def)

lemma excl_retire:
  assumes "excl h q ws"
  shows "excl (\<lambda>i. h i + (if i < length ws then in_flight (ws ! i) else 0)) q []"
  unfolding excl_def
proof (intro conjI allI impI)
  fix i :: nat assume "0 < i"
  with assms have
    "count_list q (Some i) + (if i < length ws then in_flight (ws ! i) else 0) + h i \<le> 1"
    unfolding excl_def by blast
  then show "count_list q (Some i) + (if i < length [] then in_flight ([] ! i) else 0)
       + (h i + (if i < length ws then in_flight (ws ! i) else 0)) \<le> 1"
    by simp
next
  show "h 0 + (if 0 < length ws then in_flight (ws ! 0) else 0) = 0"
    using assms unfolding excl_def by simp
qed simp_all

lemma excl_update:
  assumes "excl h q ws" and "k < length ws" and "in_flight w \<le> in_flight (ws ! k)"
    and "listener w = listener (ws ! k)"
  shows "excl h q (ws[k := w])"
  unfolding excl_def
proof (intro conjI allI impI)
  fix i :: nat assume i: "0 < i"
  with assms(1) have
    "count_list q (Some i) + (if i < length ws then in_flight (ws ! i) else 0) + h i \<le> 1"
    unfolding excl_def by blast
  then show "count_list q (Some i) +
       (if i < length (ws[k := w]) then in_flight (ws[k := w] ! i) else 0) + h i \<le> 1"
    using assms(2,3) by (cases "i = k") auto
next
  assume "0 < length (ws[k := w])"
  then show "in_flight (ws[k := w] ! 0) = 0"
    using assms unfolding excl_def by (cases "k = 0") auto
next
  show "h 0 = 0" using assms(1) unfolding excl_def by simp
next
  fix i l assume "i < length (ws[k := w])" "listener (ws[k := w] ! i) = Some l"
  then show "listener_index l = i"
    using assms unfolding excl_def by (cases "i = k") auto
qed

lemma excl_release:
  assumes "excl h q ws" and "k < length ws" and "outbox (ws ! k) = r # rest"
  shows "excl h (q @ [Some k]) (ws[k := (ws ! k)\<lparr>outbox := rest\<rparr>])"
  unfolding excl_def
proof (intro conjI allI impI)
  fix i :: nat assume i: "0 < i"
  with assms(1) have
    *: "count_list q (Some i) + (if i < length ws then in_flight (ws ! i) else 0) + h i \<le> 1"
    unfolding excl_def by blast
  show "count_list (q @ [Some k]) (Some i) +
       (if i < length (ws[k := (ws ! k)\<lparr>outbox := rest\<rparr>])
        then in_flight (ws[k := (ws ! k)\<lparr>outbox := rest\<rparr>] ! i) else 0) + h i \<le> 1"
  proof (cases "i = k")
    case True
    with * assms(2,3) show ?thesis by (simp add: in_flight_def)
  next
    case False
    with * show ?thesis by (auto split: if_splits)
  qed
next
  assume "0 < length (ws[k := (ws ! k)\<lparr>outbox := rest\<rparr>])"
  then show "in_flight (ws[k := (ws ! k)\<lparr>outbox := rest\<rparr>] ! 0) = 0"
    using assms unfolding excl_def by (cases "k = 0") (auto simp: in_flight_def)
next
  show "h 0 = 0" using assms(1) unfolding excl_def by simp
next
  fix i l assume "i < length (ws[k := (ws ! k)\<lparr>outbox := rest\<rparr>])"
    "listener (ws[k := (ws ! k)\<lparr>outbox := rest\<rparr>] ! i) = Some l"
  then show "listener_index l = i"
    using assms unfolding excl_def by (cases "i = k") auto
qed

lemma excl_release_held:
  assumes "excl h q ws" and "h' k + 1 \<le> h k" and "\<And>i. h' i \<le> h i"
  shows "excl h' (q @ [Some k]) ws"
  unfolding excl_def
proof (intro conjI allI impI)
  fix i :: nat assume i: "0 < i"
  with assms(1) have
    *: "count_list q (Some i) + (if i < length ws then in_flight (ws ! i) else 0) + h i \<le> 1"
    unfolding excl_def by blast
  show "count_list (q @ [Some k]) (Some i) +
       (if i < length ws then in_flight (ws ! i) else 0) + h' i \<le> 1"
  proof (cases "i = k")
    case True
    with * assms(2) show ?thesis by simp
  next
    case False
    with * assms(3) [of i] show ?thesis by simp
  qed
next
  show "h' 0 = 0" using assms(1) assms(3) [of 0] unfolding excl_def by simp
qed (use assms(1) in \<open>auto simp: excl_def\<close>)

lemma excl_offload:
  assumes "excl h (Some k # q) ws" and "0 < k" and "k < length ws" and "listener_index l' = k"
  shows "excl h q (ws[k := (ws ! k)\<lparr>listener := Some l', inbox := inbox (ws ! k) + 1\<rparr>])"
  unfolding excl_def
proof (intro conjI allI impI)
  fix i :: nat assume i: "0 < i"
  with assms(1) have
    *: "count_list (Some k # q) (Some i) + (if i < length ws then in_flight (ws ! i) else 0)
          + h i \<le> 1"
    unfolding excl_def by blast
  show "count_list q (Some i) +
       (if i < length (ws[k := (ws ! k)\<lparr>listener := Some l', inbox := inbox (ws ! k) + 1\<rparr>])
        then in_flight (ws[k := (ws ! k)\<lparr>listener := Some l', inbox := inbox (ws ! k) + 1\<rparr>] ! i)
        else 0) + h i \<le> 1"
  proof (cases "i = k")
    case True
    with * assms(3) show ?thesis by (simp add: in_flight_def)
  next
    case False
    with * show ?thesis by (auto split: if_splits)
  qed
next
  assume "0 < length (ws[k := (ws ! k)\<lparr>listener := Some l', inbox := inbox (ws ! k) + 1\<rparr>])"
  then show "in_flight (ws[k := (ws ! k)\<lparr>listener := Some l', inbox := inbox (ws ! k) + 1\<rparr>] ! 0) = 0"
    using assms unfolding excl_def by auto
next
  show "h 0 = 0" using assms(1) unfolding excl_def by simp
next
  fix i l
  assume "i < length (ws[k := (ws ! k)\<lparr>listener := Some l', inbox := inbox (ws ! k) + 1\<rparr>])"
    "listener (ws[k := (ws ! k)\<lparr>listener := Some l', inbox := inbox (ws ! k) + 1\<rparr>] ! i) = Some l"
  then show "listener_index l = i"
    using assms unfolding excl_def by (cases "i = k") auto
qed

lemma count_list_js_store_zero:
  "0 < j \<Longrightarrow> count_list (js_store q i 0) (Some (j::nat)) \<le> count_list q (Some j)"
proof (cases "i < length q")
  case True
  assume j: "0 < j"
  have "count_list (xs[n := Some 0]) (Some j) \<le> count_list xs (Some j)" for xs :: "nat option list" and n
  proof (induction xs arbitrary: n)
    case Nil
    then show ?case by simp
  next
    case (Cons x xs)
    then show ?case using j by (cases n) (auto simp: le_SucI)
  qed
  with True show ?thesis by (simp add: js_store_def)
next
  case False
  assume j: "0 < j"
  have "count_list (replicate n None) (Some j) = 0" for n by (induction n) simp_all
  with False j show ?thesis by (simp add: js_store_def)
qed

lemma count_list_tl: "count_list (tl q) x \<le> count_list q x"
  by (cases q) auto

lemma exclusive_startWorkers:
  "exclusive_pool h st \<Longrightarrow> exclusive_pool h (startWorkers bytesize st)"
  by (auto simp: startWorkers_def exclusive_pool_def startWorkers_loop_workers
           intro: excl_new_workers)

lemma worker_thread_pool:
  "availableWorkers (worker_thread env i st) = availableWorkers st
   \<and> (workers (worker_thread env i st) = workers st
      \<or> (i < length (workers st)
         \<and> (\<exists>w. workers (worker_thread env i st) = (workers st)[i := w]
                \<and> in_flight w \<le> in_flight (workers st ! i)
                \<and> listener w = listener (workers st ! i))))"
  by (auto simp: worker_thread_def in_flight_def split: option.splits prod.splits)

lemma exclusive_worker_thread:
  "exclusive_pool h st \<Longrightarrow> exclusive_pool h (worker_thread env i st)"
  using worker_thread_pool [of env i st]
  by (auto simp: exclusive_pool_def intro: excl_update)

lemma onMessage_pool:
  "workers (fst (onMessage l b r st)) = workers st
   \<and> (availableWorkers (fst (onMessage l b r st)) = availableWorkers st
      \<or> (\<exists>l'. l = Some l'
            \<and> (availableWorkers (fst (onMessage l b r st)) =
                 availableWorkers st @ [Some (listener_index l')]
               \<or> availableWorkers (fst (onMessage l b r st)) =
                 js_store (availableWorkers st) (listener_index l') 0)))"
  by (auto simp: onMessage_def sign_onMessage_def verify_onMessage_def Let_def
           split: option.splits listener.splits)

lemma exclusive_deliver:
  assumes "exclusive_pool h st"
  shows "exclusive_pool h (fst (deliver i st))"
proof (cases "i < length (workers st)")
  case False
  then show ?thesis using assms by (simp add: deliver_def)
next
  case i: True
  show ?thesis
  proof (cases "outbox (workers st ! i)")
    case Nil
    then show ?thesis using assms i by (simp add: deliver_def)
  next
    case (Cons response rest)
    let ?q = "availableWorkers st"
    let ?ws = "(workers st)[i := (workers st ! i)\<lparr>outbox := rest\<rparr>]"
    let ?st = "st\<lparr>workers := ?ws\<rparr>"
    let ?l = "listener (workers st ! i)"
    let ?b = "js_index (repliesSharedBuffers st) i"
    have e: "excl h ?q (workers st)" using assms by (simp add: exclusive_pool_def)
    have popped: "excl h ?q ?ws"
      using e i Cons by (intro excl_update) (simp_all add: in_flight_def)
    have released: "excl h (?q @ [Some i]) ?ws"
      using e i Cons by (rule excl_release)
    have stored: "excl h (js_store ?q i 0) ?ws"
      using popped by (rule excl_shrink) (rule count_list_js_store_zero)
    have d: "deliver i st = onMessage ?l ?b response ?st"
      using i Cons by (simp add: deliver_def)
    have k: "listener_index l' = i" if "?l = Some l'" for l'
      using e i that unfolding excl_def by blast
    show ?thesis
      using onMessage_pool [of ?l ?b response ?st] popped released stored k
      unfolding d exclusive_pool_def by auto
  qed
qed

lemma offload_pool:
  "availableWorkers (fst (offload elements l k st)) = availableWorkers st
   \<and> (workers (fst (offload elements l k st)) = workers st
      \<or> (k < length (workers st)
         \<and> workers (fst (offload elements l k st)) =
             (workers st)[k := (workers st ! k)
                \<lparr>listener := Some l, inbox := inbox (workers st ! k) + 1\<rparr>]))"
  by (auto simp: offload_def Let_def split: option.splits)

lemma request_callback_falsy:
  "falsy w \<Longrightarrow> fst (request_callback env req w st) = st"
  by (cases req)
     (simp_all add: createSignatureWithWorker_callback_def
        verifySignatureWithWorker_callback_def)

lemma request_callback_offload:
  "\<not> falsy w \<Longrightarrow>
   \<exists>elements l. listener_index l = index_of w
      \<and> fst (request_callback env req w st) = fst (offload elements l (index_of w) st)"
proof (cases req)
  case (SignRequest algorithm secret header payload callback)
  assume "\<not> falsy w"
  then have "fst (request_callback env req w st) =
        fst (offload [String ''sign'', algorithm, secret, header, payload]
               (SignReply (index_of w) callback) (index_of w) st)"
    using SignRequest by (simp add: createSignatureWithWorker_callback_def case_prod_beta)
  moreover have "listener_index (SignReply (index_of w) callback) = index_of w" by simp
  ultimately show ?thesis by blast
next
  case (VerifyRequest algorithm secret input signature callback)
  assume "\<not> falsy w"
  then have "fst (request_callback env req w st) =
        fst (offload [String ''verify'', algorithm, secret, input, signature]
               (VerifyReply (index_of w) callback) (index_of w) st)"
    using VerifyRequest by (simp add: verifySignatureWithWorker_callback_def)
  moreover have "listener_index (VerifyReply (index_of w) callback) = index_of w" by simp
  ultimately show ?thesis by blast
qed

lemma request_callback_exclusive:
  assumes "excl h q (workers st)" and "availableWorkers st = tl q"
  shows "exclusive_pool h (fst (request_callback env req (head_ref q) st))"
proof (cases "falsy (head_ref q)")
  case True
  have "excl h (tl q) (workers st)"
    using assms(1) by (rule excl_shrink) (rule count_list_tl)
  then show ?thesis
    using True assms(2) by (simp add: request_callback_falsy exclusive_pool_def)
next
  case False
  then obtain k q' where q: "q = Some k # q'" and k: "0 < k"
    by (cases q rule: shift.cases) (auto simp: head_ref_def)
  then have w: "head_ref q = Index k" and tl: "availableWorkers st = q'"
    using assms(2) by (simp_all add: head_ref_def)
  have shrunk: "excl h q' (workers st)"
    using assms(1) by (rule excl_shrink) (simp add: q)
  from request_callback_offload [OF False, of env req st] obtain elements l
    where l: "listener_index l = k"
      and f: "fst (request_callback env req (head_ref q) st) = fst (offload elements l k st)"
    using w by auto
  from offload_pool [of elements l k st]
  consider "workers (fst (offload elements l k st)) = workers st"
      "availableWorkers (fst (offload elements l k st)) = availableWorkers st"
    | "k < length (workers st)"
      "workers (fst (offload elements l k st)) =
           (workers st)[k := (workers st ! k)
              \<lparr>listener := Some l, inbox := inbox (workers st ! k) + 1\<rparr>]"
      "availableWorkers (fst (offload elements l k st)) = availableWorkers st"
    by blast
  then show ?thesis
  proof cases
    case 1
    then show ?thesis using shrunk tl f by (simp add: exclusive_pool_def)
  next
    case 2
    have "excl h q'
            ((workers st)[k := (workers st ! k)\<lparr>listener := Some l, inbox := inbox (workers st ! k) + 1\<rparr>])"
      using assms(1) [unfolded q] k 2(1) l by (rule excl_offload)
    then show ?thesis using 2 tl f by (simp add: exclusive_pool_def)
  qed
qed

lemma acquire_terminated: "terminated (acquire env req attempts random m) = terminated m"
  by (simp add: acquire_def case_prod_beta split: acquire_action.splits)

lemma exclusive_acquire:
  assumes "exclusive_pool h (state m)"
  shows "exclusive_pool h (state (acquire env req attempts random m))"
proof -
  let ?q = "availableWorkers (state m)"
  let ?st = "(state m)\<lparr>availableWorkers := tl ?q\<rparr>"
  have e: "excl h ?q (workers (state m))" using assms by (simp add: exclusive_pool_def)
  show ?thesis
  proof (cases rule: getAvailableWorker_cases [where st = "state m" and attempts = attempts
        and random = random])
    case stopped
    then show ?thesis
      using assms by (simp add: acquire_def case_prod_beta request_callback_falsy)
  next
    case retry
    have "excl h (tl ?q) (workers (state m))"
      using e by (rule excl_shrink) (rule count_list_tl)
    then show ?thesis using retry by (simp add: acquire_def exclusive_pool_def)
  next
    case invoke
    have "exclusive_pool h (fst (request_callback env req (head_ref ?q) ?st))"
      using e by (intro request_callback_exclusive) simp_all
    then show ?thesis using invoke by (simp add: acquire_def case_prod_beta)
  qed
qed

lemma retired_thread_keeps:
  "slot (retired_thread env r) = slot r
   \<and> listener (thread (retired_thread env r)) = listener (thread r)
   \<and> in_flight (thread (retired_thread env r)) \<le> in_flight (thread r)
   \<and> own_request_region (retired_thread env r) = own_request_region r"
  by (auto simp: retired_thread_def in_flight_def own_request_region_def
           split: option.splits prod.splits)

lemma shared_replies_pool:
  "availableWorkers (shared_replies r st) = availableWorkers st
   \<and> workers (shared_replies r st) = workers st
   \<and> request_region (shared_replies r st) i = request_region st i"
  by (auto simp: shared_replies_def request_region_def split: option.splits)

lemma exclusive_step:
  assumes "exclusive m"
  shows "exclusive (step env m ev)"
proof -
  let ?h = "held (terminated m)"
  have pool: "exclusive_pool ?h (state m)"
    and own: "\<And>r l. r \<in> set (terminated m) \<Longrightarrow> listener (thread r) = Some l \<Longrightarrow>
                listener_index l = slot r"
    using assms by (auto simp: exclusive_def exclusive_pool_def)
  have e: "excl ?h (availableWorkers (state m)) (workers (state m))"
    using pool by (simp add: exclusive_pool_def)
  have I: "exclusive m'"
    if "exclusive_pool (held (terminated m')) (state m')"
      and "\<And>r l. r \<in> set (terminated m') \<Longrightarrow> listener (thread r) = Some l \<Longrightarrow>
                listener_index l = slot r" for m' :: event_loop
    using that by (auto simp: exclusive_def exclusive_pool_def)
  show ?thesis
  proof (cases ev)
    case (Start bytesize)
    show ?thesis
    proof (rule I)
      show "exclusive_pool (held (terminated (step env m ev))) (state (step env m ev))"
        using exclusive_startWorkers [OF pool, of bytesize] Start
        by (simp add: held_map_replaced [abs_def] del: held_def)
    next
      fix r l assume "r \<in> set (terminated (step env m ev))" "listener (thread r) = Some l"
      then show "listener_index l = slot r"
        using Start own by (auto split: if_splits)
    qed
  next
    case (Stop callback)
    show ?thesis
    proof (cases "workers (state m) = []")
      case True
      then have "step env m ev = m" using Stop by (simp add: stopWorkers_def)
      then show ?thesis using assms by simp
    next
      case False
      let ?ws = "workers (state m)"
      have t: "terminated (step env m ev) = terminated m @ retire (state m) 0 ?ws"
        and s: "state (step env m ev) = (state m)\<lparr>workers := []\<rparr>"
        using Stop False by (simp_all add: stopWorkers_def)
      have h: "held (terminated (step env m ev)) =
               (\<lambda>i. ?h i + (if i < length ?ws then in_flight (?ws ! i) else 0))"
        unfolding t by (rule ext) (simp add: held_append held_retire)
      show ?thesis
      proof (rule I)
        show "exclusive_pool (held (terminated (step env m ev))) (state (step env m ev))"
          unfolding h s using excl_retire [OF e] by (simp add: exclusive_pool_def)
      next
        fix r l assume r: "r \<in> set (terminated (step env m ev))" and l: "listener (thread r) = Some l"
        from r consider "r \<in> set (terminated m)" | "r \<in> set (retire (state m) 0 ?ws)"
          unfolding t by auto
        then show "listener_index l = slot r"
        proof cases
          case 1
          then show ?thesis using own l by blast
        next
          case 2
          from retire_set [OF this] obtain j where "j < length ?ws" "slot r = j" "thread r = ?ws ! j"
            by auto
          then show ?thesis using e l unfolding excl_def by auto
        qed
      qed
    qed
  next
    case (Submit req random)
    show ?thesis
    proof (rule I)
      show "exclusive_pool (held (terminated (step env m ev))) (state (step env m ev))"
        using exclusive_acquire [OF pool] Submit by (simp add: acquire_terminated)
    next
      fix r l assume "r \<in> set (terminated (step env m ev))" "listener (thread r) = Some l"
      then show "listener_index l = slot r" using Submit own by (simp add: acquire_terminated)
    qed
  next
    case (TimerFires k random)
    show ?thesis
    proof (cases "k < length (timers m)")
      case False
      then show ?thesis using TimerFires assms by simp
    next
      case True
      let ?m = "m\<lparr>timers := take k (timers m) @ drop (Suc k) (timers m)\<rparr>"
      have st: "step env m ev = acquire env (fst (timers m ! k)) (snd (timers m ! k)) random ?m"
        using TimerFires True by simp
      have pool': "exclusive_pool ?h (state ?m)" using pool by simp
      show ?thesis
      proof (rule I)
        show "exclusive_pool (held (terminated (step env m ev))) (state (step env m ev))"
          unfolding st using exclusive_acquire [OF pool'] by (simp add: acquire_terminated)
      next
        fix r l assume "r \<in> set (terminated (step env m ev))" "listener (thread r) = Some l"
        then show "listener_index l = slot r" unfolding st using own by (simp add: acquire_terminated)
      qed
    qed
  next
    case (WorkerRuns i)
    show ?thesis
    proof (rule I)
      show "exclusive_pool (held (terminated (step env m ev))) (state (step env m ev))"
        using exclusive_worker_thread [OF pool] WorkerRuns by simp
    next
      fix r l assume "r \<in> set (terminated (step env m ev))" "listener (thread r) = Some l"
      then show "listener_index l = slot r" using WorkerRuns own by simp
    qed
  next
    case (ReplyArrives i)
    show ?thesis
    proof (rule I)
      show "exclusive_pool (held (terminated (step env m ev))) (state (step env m ev))"
        using exclusive_deliver [OF pool, of i] ReplyArrives by (simp add: case_prod_beta)
    next
      fix r l assume "r \<in> set (terminated (step env m ev))" "listener (thread r) = Some l"
      then show "listener_index l = slot r" using ReplyArrives own by (simp add: case_prod_beta)
    qed
  next
    case (TerminatedRuns k)
    show ?thesis
    proof (cases "k < length (terminated m)")
      case False
      then show ?thesis using TerminatedRuns assms by simp
    next
      case True
      let ?r = "terminated m ! k"
      let ?r' = "retired_thread env ?r"
      note keeps = retired_thread_keeps [of env ?r]
      have t: "terminated (step env m ev) = (terminated m)[k := ?r']"
        and s: "state (step env m ev) = shared_replies ?r' (state m)"
        using TerminatedRuns True by simp_all
      have fewer: "held ((terminated m)[k := ?r']) i \<le> ?h i" for i
        using held_update [OF True, of ?r' i] keeps by (auto split: if_splits)
      show ?thesis
      proof (rule I)
        show "exclusive_pool (held (terminated (step env m ev))) (state (step env m ev))"
          unfolding t s using excl_fewer [OF e fewer]
          by (simp add: exclusive_pool_def shared_replies_pool)
      next
        fix r l assume r: "r \<in> set (terminated (step env m ev))" and l: "listener (thread r) = Some l"
        from r have "r = ?r' \<or> r \<in> set (terminated m)"
          unfolding t using set_update_subset_insert by fastforce
        then show "listener_index l = slot r"
          using own l keeps True nth_mem by metis
      qed
    qed
  next
    case (TerminatedReply k)
    show ?thesis
    proof (cases "k < length (terminated m)")
      case False
      then show ?thesis using TerminatedReply assms by (simp add: deliver_terminated_def)
    next
      case True
      let ?r = "terminated m ! k"
      show ?thesis
      proof (cases "outbox (thread ?r)")
        case Nil
        then show ?thesis using TerminatedReply True assms by (simp add: deliver_terminated_def)
      next
        case (Cons response rest)
        let ?r' = "?r\<lparr>thread := (thread ?r)\<lparr>outbox := rest\<rparr>\<rparr>"
        let ?o = "onMessage (listener (thread ?r)) (reply_bytes ?r) response (state m)"
        have t: "terminated (step env m ev) = (terminated m)[k := ?r']"
          and s: "state (step env m ev) = fst ?o"
          using TerminatedReply True Cons by (simp_all add: deliver_terminated_def case_prod_beta)
        have one: "in_flight (thread ?r') + 1 = in_flight (thread ?r)"
          using Cons by (simp add: in_flight_def)
        have upd: "held ((terminated m)[k := ?r']) i + (if i = slot ?r then in_flight (thread ?r) else 0) =
                   ?h i + (if i = slot ?r then in_flight (thread ?r') else 0)" for i
          using held_update [OF True, of ?r' i] by simp
        have fewer: "held ((terminated m)[k := ?r']) i \<le> ?h i" for i
          using upd [of i] one by (auto split: if_splits)
        have less: "held ((terminated m)[k := ?r']) (slot ?r) + 1 \<le> ?h (slot ?r)"
          using upd [of "slot ?r"] one by simp
        have idx: "listener_index l' = slot ?r" if "listener (thread ?r) = Some l'" for l'
          using own [of ?r l'] True that by simp
        have same: "excl (held ((terminated m)[k := ?r'])) (availableWorkers (state m)) (workers (state m))"
          using e fewer by (rule excl_fewer)
        have pushed: "excl (held ((terminated m)[k := ?r'])) (availableWorkers (state m) @ [Some (slot ?r)])
                        (workers (state m))"
          using e less fewer by (rule excl_release_held)
        have stored: "excl (held ((terminated m)[k := ?r'])) (js_store (availableWorkers (state m)) j 0)
                        (workers (state m))" for j
          using same by (rule excl_shrink) (rule count_list_js_store_zero)
        show ?thesis
        proof (rule I)
          show "exclusive_pool (held (terminated (step env m ev))) (state (step env m ev))"
            unfolding t s exclusive_pool_def
            using onMessage_pool [of "listener (thread ?r)" "reply_bytes ?r" response "state m"]
              same pushed stored idx
            by auto
        next
          fix r l assume r: "r \<in> set (terminated (step env m ev))" and l: "listener (thread r) = Some l"
          from r have "r = ?r' \<or> r \<in> set (terminated m)"
            unfolding t using set_update_subset_insert by fastforce
          then show "listener_index l = slot r"
            using own l idx by auto
        qed
      qed
    qed
  qed
qed

lemma exclusive_foldl:
  "exclusive m \<Longrightarrow> exclusive (foldl (step env) m events)"
  by (induction events arbitrary: m) (simp_all add: exclusive_step)

lemma exclusive_run: "exclusive (run env c events)"
  unfolding run_def
  by (rule exclusive_foldl)
     (simp add: exclusive_def excl_def initial_def count_list_upt held_Nil)

lemma held_member: "r \<in> set rs \<Longrightarrow> in_flight (thread r) \<le> held rs (slot r)"
  by (induction rs) (auto simp: held_Cons)

lemma exclusive_operations:
  assumes "exclusive m"
  shows "operations m i \<le> 1"
    and "0 < operations m i \<Longrightarrow> Some i \<notin> set (availableWorkers (state m))"
proof -
  let ?ws = "workers (state m)"
  have e: "excl (held (terminated m)) (availableWorkers (state m)) ?ws"
    using assms by (simp add: exclusive_def)
  have zero: "operations m 0 = 0"
    using e unfolding excl_def operations_def by auto
  have pos: "count_list (availableWorkers (state m)) (Some i) + operations m i \<le> 1" if "0 < i"
    using e that unfolding excl_def operations_def by (simp add: add.assoc)
  show "operations m i \<le> 1"
    using zero pos by (cases "i = 0") auto
  show "Some i \<notin> set (availableWorkers (state m))" if "0 < operations m i"
  proof (cases "i = 0")
    case True
    with zero that show ?thesis by simp
  next
    case False
    with pos that have "count_list (availableWorkers (state m)) (Some i) = 0" by simp
    then show ?thesis by (simp add: count_list_0_iff)
  qed
qed

lemma js_index_js_store:
  "js_index (js_store xs k v) i = (if i = k then Some v else js_index xs i)"
  by (auto simp: js_index_def js_store_def nth_append)

lemma offload_region:
  "i \<noteq> k \<Longrightarrow> request_region (fst (offload elements l k st)) i = request_region st i"
  by (auto simp: offload_def request_region_def js_index_js_store Let_def split: option.splits)

lemma request_callback_region:
  assumes "excl h q (workers st)" and "availableWorkers st = tl q"
    and "request_region (fst (request_callback env req (head_ref q) st)) i \<noteq> request_region st i"
  shows "(if i < length (workers st) then in_flight (workers st ! i) else 0) + h i = 0"
proof (cases "falsy (head_ref q)")
  case True
  with assms(3) show ?thesis by (simp add: request_callback_falsy)
next
  case False
  then obtain k q' where q: "q = Some k # q'" and k: "0 < k"
    by (cases q rule: shift.cases) (auto simp: head_ref_def)
  then have w: "head_ref q = Index k" by (simp add: head_ref_def)
  from request_callback_offload [OF False, of env req st] obtain elements l
    where f: "fst (request_callback env req (head_ref q) st) = fst (offload elements l k st)"
    using w by auto
  with assms(3) offload_region have "i = k" by metis
  moreover have "count_list q (Some k) + (if k < length (workers st) then in_flight (workers st ! k) else 0)
                   + h k \<le> 1"
    using assms(1) k unfolding excl_def by blast
  ultimately show ?thesis using q by (auto split: if_splits)
qed

lemma acquire_region:
  assumes "exclusive_pool h (state m)"
    and "request_region (state (acquire env req attempts random m)) i \<noteq>
         request_region (state m) i"
  shows "(if i < length (workers (state m)) then in_flight (workers (state m) ! i) else 0) + h i = 0"
proof -
  let ?q = "availableWorkers (state m)"
  let ?st = "(state m)\<lparr>availableWorkers := tl ?q\<rparr>"
  have e: "excl h ?q (workers ?st)" using assms(1) by (simp add: exclusive_pool_def)
  have same: "request_region ?st i = request_region (state m) i"
    by (simp add: request_region_def)
  show ?thesis
  proof (cases rule: getAvailableWorker_cases [where st = "state m" and attempts = attempts
        and random = random])
    case stopped
    with assms(2) show ?thesis
      by (simp add: acquire_def case_prod_beta request_callback_falsy)
  next
    case retry
    with assms(2) same show ?thesis by (simp add: acquire_def)
  next
    case invoke
    have "request_region (fst (request_callback env req (head_ref ?q) ?st)) i \<noteq>
          request_region ?st i"
      using assms(2) invoke same by (simp add: acquire_def case_prod_beta)
    with e have "(if i < length (workers ?st) then in_flight (workers ?st ! i) else 0) + h i = 0"
      by (intro request_callback_region [where q = ?q and st = ?st]) simp_all
    then show ?thesis by (auto split: if_splits)
  qed
qed

lemma onMessage_region:
  "request_region (fst (onMessage l b r st)) i = request_region st i"
  by (auto simp: onMessage_def sign_onMessage_def verify_onMessage_def request_region_def Let_def
        split: option.splits listener.splits)

lemma step_region:
  assumes "exclusive m"
    and "request_region (state (step env m ev)) i \<noteq> request_region (state m) i"
  shows "operations m i = 0 \<or> (workers (state m) = [] \<and> (\<exists>bytesize. ev = Start bytesize))"
proof -
  have pool: "exclusive_pool (held (terminated m)) (state m)"
    using assms(1) by (simp add: exclusive_def exclusive_pool_def)
  show ?thesis
  proof (cases ev)
    case (Start bytesize)
    with assms(2) show ?thesis
      by (cases "workers (state m) = []") (simp_all add: startWorkers_def)
  next
    case (Stop callback)
    with assms(2) show ?thesis
      by (cases "workers (state m) = []") (simp_all add: stopWorkers_def request_region_def)
  next
    case (Submit req random)
    with assms(2) have "request_region (state (acquire env req 3 random m)) i \<noteq>
                        request_region (state m) i"
      by simp
    from acquire_region [OF pool this] show ?thesis
      by (auto simp: operations_def split: if_splits)
  next
    case (TimerFires k random)
    show ?thesis
    proof (cases "k < length (timers m)")
      case True
      let ?m = "m\<lparr>timers := take k (timers m) @ drop (Suc k) (timers m)\<rparr>"
      have "request_region (state (acquire env (fst (timers m ! k)) (snd (timers m ! k)) random ?m)) i
              \<noteq> request_region (state ?m) i"
        using assms(2) TimerFires True by simp
      moreover have "exclusive_pool (held (terminated m)) (state ?m)" using pool by simp
      ultimately have "(if i < length (workers (state ?m)) then in_flight (workers (state ?m) ! i)
                        else 0) + held (terminated m) i = 0"
        by (intro acquire_region)
      then show ?thesis by (auto simp: operations_def split: if_splits)
    next
      case False
      with assms(2) TimerFires show ?thesis by simp
    qed
  next
    case (WorkerRuns k)
    with assms(2) show ?thesis
      by (auto simp: worker_thread_def request_region_def split: option.splits prod.splits if_splits)
  next
    case (ReplyArrives k)
    have "request_region (st\<lparr>workers := ws\<rparr>) i = request_region st i" for st ws
      by (simp add: request_region_def)
    then have "request_region (fst (deliver k st)) i = request_region st i" for st
      by (simp add: deliver_def onMessage_region split: list.splits)
    with assms(2) ReplyArrives show ?thesis by (simp add: case_prod_beta)
  next
    case (TerminatedRuns k)
    with assms(2) show ?thesis
      by (cases "k < length (terminated m)") (simp_all add: shared_replies_pool)
  next
    case (TerminatedReply k)
    have "request_region (state (deliver_terminated k m)) i = request_region (state m) i"
      by (auto simp: deliver_terminated_def onMessage_region case_prod_beta split: list.splits)
    with assms(2) TerminatedReply show ?thesis by simp
  qed
qed

lemma step_own_request_region:
  assumes "k < length (terminated m)"
  shows "k < length (terminated (step env m ev))
       \<and> own_request_region (terminated (step env m ev) ! k) = own_request_region (terminated m ! k)"
proof (cases ev)
  case (Start bytesize)
  with assms show ?thesis by (simp add: own_request_region_def)
next
  case (Stop callback)
  with assms show ?thesis by (simp add: nth_append)
next
  case (Submit req random)
  with assms show ?thesis by (simp add: acquire_terminated)
next
  case (TimerFires j random)
  with assms show ?thesis by (simp add: acquire_terminated)
next
  case (WorkerRuns j)
  with assms show ?thesis by simp
next
  case (ReplyArrives j)
  with assms show ?thesis by (simp add: case_prod_beta)
next
  case (TerminatedRuns j)
  with assms retired_thread_keeps [of env "terminated m ! k"] show ?thesis
    by (simp add: nth_list_update)
next
  case (TerminatedReply j)
  with assms show ?thesis
    by (auto simp: deliver_terminated_def case_prod_beta nth_list_update own_request_region_def
          split: list.splits)
qed

text \<open>
  C9. In every state the caller's thread can reach from the loaded module, whatever the
  number of cores, the outside operations and the sequence of starts, stops, requests,
  timers, worker runs and replies, of workers of the pool and of terminated ones alike,
  each slot has at most one operation in flight (notified, reply not yet received),
  counting the worker of the pool and every terminated worker that had the index; so has
  each worker. A slot with an operation in flight is not in the availability queue. A step
  changes the request region of a slot only when no operation is in flight on the slot,
  or when it is a start of the stopped pool, which gives every slot new regions and
  leaves those of the terminated workers alone; and no step changes the request region
  of a terminated worker. No lock is part of the state.
\<close>

theorem one_operation_in_flight_per_worker:
  "operations (run env c events) i \<le> 1
   \<and> (i < length (workers (state (run env c events))) \<longrightarrow>
        in_flight (workers (state (run env c events)) ! i) \<le> 1)
   \<and> (\<forall>r \<in> set (terminated (run env c events)). in_flight (thread r) \<le> 1)
   \<and> (0 < operations (run env c events) i \<longrightarrow>
        Some i \<notin> set (availableWorkers (state (run env c events))))
   \<and> (request_region (state (step env (run env c events) ev)) i \<noteq>
        request_region (state (run env c events)) i \<longrightarrow>
        operations (run env c events) i = 0
        \<or> (workers (state (run env c events)) = [] \<and> (\<exists>bytesize. ev = Start bytesize)))
   \<and> (\<forall>k < length (terminated (run env c events)).
        own_request_region (terminated (step env (run env c events) ev) ! k) =
        own_request_region (terminated (run env c events) ! k))"
proof -
  let ?m = "run env c events"
  note ops = exclusive_operations [OF exclusive_run, of env c events]
  have A: "operations ?m i \<le> 1" by (rule ops(1))
  have B: "in_flight (workers (state ?m) ! i) \<le> 1" if "i < length (workers (state ?m))"
    using A that by (simp add: operations_def)
  have C: "in_flight (thread r) \<le> 1" if "r \<in> set (terminated ?m)" for r
  proof -
    have "in_flight (thread r) \<le> held (terminated ?m) (slot r)" using that by (rule held_member)
    also have "\<dots> \<le> operations ?m (slot r)" by (simp add: operations_def)
    also have "\<dots> \<le> 1" by (rule ops(1))
    finally show ?thesis .
  qed
  have D: "Some i \<notin> set (availableWorkers (state ?m))" if "0 < operations ?m i"
    using that by (rule ops(2))
  have E: "operations ?m i = 0 \<or> (workers (state ?m) = [] \<and> (\<exists>bytesize. ev = Start bytesize))"
    if "request_region (state (step env ?m ev)) i \<noteq> request_region (state ?m) i"
    using exclusive_run that by (rule step_region)
  have F: "own_request_region (terminated (step env ?m ev) ! k) = own_request_region (terminated ?m ! k)"
    if "k < length (terminated ?m)" for k
    using step_own_request_region [OF that] by blast
  from A B C D E F show ?thesis by blast
qed

theorem one_operation_in_flight_per_worker_witness:
  "0 < operations (run example_adapter 3
      [Start 64,
       Submit (SignRequest (String ''HS256'') (String ''key'') (String ''hdr'')
                 (String ''pay'') 7) 0,
       TimerFires 0 0, Stop None, Start 64]) 1
   \<and> Some 1 \<notin> set (availableWorkers (state (run example_adapter 3
      [Start 64,
       Submit (SignRequest (String ''HS256'') (String ''key'') (String ''hdr'')
                 (String ''pay'') 7) 0,
       TimerFires 0 0, Stop None, Start 64])))
   \<and> request_region (state (step example_adapter (run example_adapter 3
      [Start 64,
       Submit (SignRequest (String ''HS256'') (String ''key'') (String ''hdr'')
                 (String ''pay'') 7) 0,
       TimerFires 0 0, Stop None, Start 64])
         (Submit (SignRequest (String ''HS256'') (String ''key'') (String ''hdr'')
                 (String ''pay'') 9) 0))) 2 \<noteq>
      request_region (state (run example_adapter 3
      [Start 64,
       Submit (SignRequest (String ''HS256'') (String ''key'') (String ''hdr'')
                 (String ''pay'') 7) 0,
       TimerFires 0 0, Stop None, Start 64])) 2
   \<and> operations (run example_adapter 3
      [Start 64,
       Submit (SignRequest (String ''HS256'') (String ''key'') (String ''hdr'')
                 (String ''pay'') 7) 0,
       TimerFires 0 0, Stop None, Start 64]) 2 = 0
   \<and> trace (run example_adapter 3
      [Start 64,
       Submit (SignRequest (String ''HS256'') (String ''key'') (String ''hdr'')
                 (String ''pay'') 7) 0,
       TimerFires 0 0, WorkerRuns 1, Stop None, TerminatedReply 1]) =
     [TimerSet 0, ConsoleLog (Index 1), Callback 7 (Inr (Signature ''c2ln''))]
   \<and> availableWorkers (state (run example_adapter 3
      [Start 64,
       Submit (SignRequest (String ''HS256'') (String ''key'') (String ''hdr'')
                 (String ''pay'') 7) 0,
       TimerFires 0 0, WorkerRuns 1, Stop None, TerminatedReply 1])) = [Some 2, Some 1]"
proof -
  let ?m = "run example_adapter 3
      [Start 64,
       Submit (SignRequest (String ''HS256'') (String ''key'') (String ''hdr'')
                 (String ''pay'') 7) 0,
       TimerFires 0 0, Stop None, Start 64]"
  let ?ev = "Submit (SignRequest (String ''HS256'') (String ''key'') (String ''hdr'')
                 (String ''pay'') 9) 0"
  have busy: "0 < operations ?m 1" by code_simp
  have running: "workers (state ?m) \<noteq> []" by code_simp
  have written: "request_region (state (step example_adapter ?m ?ev)) 2 \<noteq>
                 request_region (state ?m) 2"
    by code_simp
  have late: "trace (run example_adapter 3
      [Start 64,
       Submit (SignRequest (String ''HS256'') (String ''key'') (String ''hdr'')
                 (String ''pay'') 7) 0,
       TimerFires 0 0, WorkerRuns 1, Stop None, TerminatedReply 1]) =
     [TimerSet 0, ConsoleLog (Index 1), Callback 7 (Inr (Signature ''c2ln''))]
   \<and> availableWorkers (state (run example_adapter 3
      [Start 64,
       Submit (SignRequest (String ''HS256'') (String ''key'') (String ''hdr'')
                 (String ''pay'') 7) 0,
       TimerFires 0 0, WorkerRuns 1, Stop None, TerminatedReply 1])) = [Some 2, Some 1]"
    by code_simp
  have queued: "Some 1 \<notin> set (availableWorkers (state ?m))"
    using one_operation_in_flight_per_worker [of example_adapter 3
        "[Start 64,
          Submit (SignRequest (String ''HS256'') (String ''key'') (String ''hdr'')
                 (String ''pay'') 7) 0,
          TimerFires 0 0, Stop None, Start 64]" 1] busy
    by blast
  have idle: "operations ?m 2 = 0"
    using one_operation_in_flight_per_worker [of example_adapter 3
        "[Start 64,
          Submit (SignRequest (String ''HS256'') (String ''key'') (String ''hdr'')
                 (String ''pay'') 7) 0,
          TimerFires 0 0, Stop None, Start 64]" 2 ?ev] written running
    by blast
  from busy queued written idle late show ?thesis by blast
qed

section \<open>A failure through a worker\<close>














end
